theory Spec2Isabelle
  imports Complex_Main "HOL-Library.Sublist" "HOL-Library.Extended_Nat"
begin

section \<open>Shared data model (src/types.ts)\<close>

text \<open>
  Timestamps are epoch milliseconds, modelled as \<open>int\<close>. JavaScript numbers that hold
  scores (quotients, square roots, logarithms) are modelled as \<open>real\<close>: rounding of
  IEEE doubles is not part of the model. An optional string field is a
  \<open>string option\<close>; JavaScript's \<open>a || b\<close> on such fields skips both \<open>undefined\<close>
  and the empty string.
\<close>

datatype status = firing | resolved | info

text \<open>An exception that the code throws is a value of \<open>error\<close>.\<close>

datatype error = TypeError

record Alert =
  ts :: int
  source :: string
  vendor_event_id :: string
  fingerprint :: string
  title :: "string option"
  status :: status
  severity :: string
  kind :: string
  service :: "string option"
  component :: "string option"
  resource :: "string option"
  entity_key :: "string option"
  deploy_key :: "string option"

text \<open>\<open>x || y\<close> on optional strings: the first operand when it is a non-empty string.\<close>

fun js_or :: "string option \<Rightarrow> string \<Rightarrow> string" where
  "js_or None d = d"
| "js_or (Some s) d = (if s = [] then d else s)"

text \<open>\<open>alert.entity_key || alert.service || alert.component || alert.resource || 'na'\<close>\<close>

definition entityKey :: "Alert \<Rightarrow> string" where
  "entityKey a =
     js_or (entity_key a) (js_or (service a) (js_or (component a) (js_or (resource a) ''na'')))"

text \<open>
  \<open>new Set(xs)\<close> iterates the distinct elements of \<open>xs\<close> in order of first appearance;
  so do the keys of a \<open>Map\<close> filled from \<open>xs\<close>.
\<close>

definition pushNew :: "'a list \<Rightarrow> 'a \<Rightarrow> 'a list" where
  "pushNew ks k = (if k \<in> set ks then ks else ks @ [k])"

definition firstKeys :: "'a list \<Rightarrow> 'a list" where
  "firstKeys xs = foldl pushNew [] xs"

section \<open>Deduplication worker (src/workers/dedup.worker.ts)\<close>

record DedupState =
  lastSeen :: "string \<rightharpoonup> int"
  counts :: "string \<rightharpoonup> nat"
  flapCounts :: "string \<rightharpoonup> nat"
  lastToggle :: "string \<rightharpoonup> status"

definition emptyDedupState :: DedupState where
  "emptyDedupState =
     \<lparr> lastSeen = Map.empty, counts = Map.empty, flapCounts = Map.empty,
       lastToggle = Map.empty \<rparr>"

text \<open>
  \<open>key.toLowerCase().replace(/[^a-z0-9_|]/g, '_')\<close> on ASCII text: upper-case letters
  are lowered, every character outside \<open>a-z0-9_|\<close> becomes an underscore.
\<close>

definition toLowerCase_char :: "char \<Rightarrow> char" where
  "toLowerCase_char c =
     (case map_of (zip ''ABCDEFGHIJKLMNOPQRSTUVWXYZ'' ''abcdefghijklmnopqrstuvwxyz'') c of
        Some l \<Rightarrow> l
      | None \<Rightarrow> c)"

definition sanitize_char :: "char \<Rightarrow> char" where
  "sanitize_char c =
     (if c \<in> set ''abcdefghijklmnopqrstuvwxyz0123456789_|'' then c else CHR ''_'')"

text \<open>A template literal prints an absent title as \<open>undefined\<close>.\<close>

definition generateFingerprint :: "Alert \<Rightarrow> string" where
  "generateFingerprint a =
     (let key =
        (if fingerprint a \<noteq> [] then fingerprint a
         else (case title a of Some t \<Rightarrow> t | None \<Rightarrow> ''undefined''))
        @ ''|'' @ severity a @ ''|'' @ entityKey a
      in map (sanitize_char \<circ> toLowerCase_char) key)"

definition generateDedupKey :: "Alert \<Rightarrow> string" where
  "generateDedupKey a = generateFingerprint a @ ''|'' @ entityKey a"

text \<open>\<open>state.lastSeen.get(key) || 0\<close> and the like.\<close>

definition get_or0 :: "('k \<rightharpoonup> 'v::zero) \<Rightarrow> 'k \<Rightarrow> 'v" where
  "get_or0 m k = (case m k of None \<Rightarrow> 0 | Some v \<Rightarrow> v)"

definition isDuplicate :: "DedupState \<Rightarrow> Alert \<Rightarrow> int \<Rightarrow> bool" where
  "isDuplicate st a ttlMs = (ts a - get_or0 (lastSeen st) (generateDedupKey a) < ttlMs)"

text \<open>
  \<open>updateDedupState\<close> mutates the worker state and returns \<open>{isDuplicate, count}\<close>; the
  model returns the new state with both.
\<close>

definition updateDedupState :: "DedupState \<Rightarrow> Alert \<Rightarrow> int \<Rightarrow> DedupState \<times> bool \<times> nat" where
  "updateDedupState st a ttlMs =
     (let key = generateDedupKey a;
          now = ts a;
          last = get_or0 (lastSeen st) key
      in if now - last < ttlMs then
           (let count = get_or0 (counts st) key + 1;
                st1 = st\<lparr>counts := (counts st)(key \<mapsto> count)\<rparr>;
                st2 = (case lastToggle st1 key of
                         Some lastStatus \<Rightarrow>
                           if lastStatus \<noteq> status a
                           then st1\<lparr>flapCounts :=
                                  (flapCounts st1)(key \<mapsto> get_or0 (flapCounts st1) key + 1)\<rparr>
                           else st1
                       | None \<Rightarrow> st1)
            in (st2\<lparr>lastToggle := (lastToggle st2)(key \<mapsto> status a)\<rparr>, True, count))
         else
           (st\<lparr>lastSeen := (lastSeen st)(key \<mapsto> now),
               counts := (counts st)(key \<mapsto> 1),
               lastToggle := (lastToggle st)(key \<mapsto> status a)\<rparr>, False, 1))"

text \<open>
  The per-alert pass of \<open>self.onmessage\<close>: a duplicate whose key has a flap count above 3
  is skipped (\<open>continue\<close>), every other alert is pushed on \<open>processedAlerts\<close>.
\<close>

definition keepAlert :: "DedupState \<Rightarrow> Alert \<Rightarrow> bool \<Rightarrow> bool" where
  "keepAlert st a dup = (\<not> (dup \<and> get_or0 (flapCounts st) (generateDedupKey a) > 3))"

fun processBatch :: "DedupState \<Rightarrow> int \<Rightarrow> Alert list \<Rightarrow> DedupState \<times> Alert list" where
  "processBatch st ttlMs [] = (st, [])"
| "processBatch st ttlMs (a # batch) =
     (case updateDedupState st a ttlMs of
        (st1, dup, count) \<Rightarrow>
          (case processBatch st1 ttlMs batch of
             (st2, kept) \<Rightarrow> (st2, if keepAlert st1 a dup then a # kept else kept)))"

text \<open>
  \<open>applyRateLimiting\<close>: the alerts are grouped by entity key in a \<open>Map\<close> (which iterates
  in insertion order, hence an association list), each group is sorted by timestamp
  (\<open>Array.prototype.sort\<close> is stable) and walked with a counter. The wall clock
  \<open>Date.now()\<close> is the parameter \<open>now\<close>.
\<close>

fun groupPush :: "(string \<times> Alert list) list \<Rightarrow> string \<Rightarrow> Alert \<Rightarrow> (string \<times> Alert list) list" where
  "groupPush [] k a = [(k, [a])]"
| "groupPush ((k', as) # g) k a =
     (if k' = k then (k', as @ [a]) # g else (k', as) # groupPush g k a)"

fun groupByEntity :: "(string \<times> Alert list) list \<Rightarrow> Alert list \<Rightarrow> (string \<times> Alert list) list" where
  "groupByEntity g [] = g"
| "groupByEntity g (a # as) = groupByEntity (groupPush g (entityKey a) a) as"

definition rateLimitWindow :: int where
  "rateLimitWindow = 60000"

definition maxAlertsPerMinute :: nat where
  "maxAlertsPerMinute = 100"

fun rateLimitEntity :: "int \<Rightarrow> nat \<Rightarrow> Alert list \<Rightarrow> Alert list" where
  "rateLimitEntity now alertsInWindow [] = []"
| "rateLimitEntity now alertsInWindow (a # as) =
     (if now - ts a \<le> rateLimitWindow then
        (if alertsInWindow < maxAlertsPerMinute
         then a # rateLimitEntity now (Suc alertsInWindow) as
         else rateLimitEntity now alertsInWindow as)
      else a # rateLimitEntity now alertsInWindow as)"

definition applyRateLimiting :: "int \<Rightarrow> Alert list \<Rightarrow> Alert list" where
  "applyRateLimiting now alerts =
     concat (map (\<lambda>(entityKey, entityAlertList). rateLimitEntity now 0 (sort_key ts entityAlertList))
               (groupByEntity [] alerts))"

text \<open>
  \<open>garbageCollect\<close> walks \<open>lastSeen\<close> and deletes, from all four maps, every key last seen
  more than ten minutes before the wall clock.
\<close>

definition maxAge :: int where
  "maxAge = 10 * 60000"

definition stale :: "int \<Rightarrow> DedupState \<Rightarrow> string \<Rightarrow> bool" where
  "stale now st k = (case lastSeen st k of None \<Rightarrow> False | Some t \<Rightarrow> now - t > maxAge)"

definition garbageCollect :: "int \<Rightarrow> DedupState \<Rightarrow> DedupState" where
  "garbageCollect now st =
     \<lparr> lastSeen = (\<lambda>k. if stale now st k then None else lastSeen st k),
       counts = (\<lambda>k. if stale now st k then None else counts st k),
       flapCounts = (\<lambda>k. if stale now st k then None else flapCounts st k),
       lastToggle = (\<lambda>k. if stale now st k then None else lastToggle st k) \<rparr>"

text \<open>
  The message handler: a message of another type is answered with an error and leaves the
  state alone; otherwise the per-alert pass, the rate limiter and the garbage collector
  run in this order and the rate-limited alerts are the response data. The two readings
  of the wall clock are the parameters \<open>nowRate\<close> and \<open>nowGc\<close>. The performance metrics of
  the response are not modelled.
\<close>

record DedupMessage =
  msg_type :: string
  msg_batch :: "Alert list"
  msg_ttlMs :: int

definition dedup_onmessage ::
  "int \<Rightarrow> int \<Rightarrow> DedupState \<Rightarrow> DedupMessage \<Rightarrow> DedupState \<times> (string + Alert list)" where
  "dedup_onmessage nowRate nowGc st m =
     (if msg_type m \<noteq> ''dedup'' then (st, Inl (''Unknown message type: '' @ msg_type m))
      else (case processBatch st (msg_ttlMs m) (msg_batch m) of
              (st1, processedAlerts) \<Rightarrow>
                (garbageCollect nowGc st1, Inr (applyRateLimiting nowRate processedAlerts))))"

text \<open>The alerts a response carries; an error response carries none.\<close>

fun responseData :: "string + Alert list \<Rightarrow> Alert list" where
  "responseData (Inl err) = []"
| "responseData (Inr alerts) = alerts"

section \<open>In-process engine (src/main.js): simplified deduplication\<close>

text \<open>
  \<open>CorrelationEngine.deduplicateAlerts\<close> keeps a map \<open>seen\<close> local to the batch and
  passes an alert only when its key was last passed at least \<open>dedupTtlMs\<close> earlier
  (an absent key counts as time 0). The key is
  \<open>fingerprint || kind\<close>, severity and \<open>entity_key || service || 'na'\<close>.
\<close>

definition engineDedupKey :: "Alert \<Rightarrow> string" where
  "engineDedupKey a =
     (if fingerprint a \<noteq> [] then fingerprint a else kind a) @ ''|'' @ severity a @ ''|'' @
     js_or (entity_key a) (js_or (service a) ''na'')"

fun deduplicateLoop :: "(string \<rightharpoonup> int) \<Rightarrow> int \<Rightarrow> Alert list \<Rightarrow> Alert list" where
  "deduplicateLoop seen dedupTtlMs [] = []"
| "deduplicateLoop seen dedupTtlMs (a # alerts) =
     (let key = engineDedupKey a; last = get_or0 seen key
      in if ts a - last \<ge> dedupTtlMs
         then a # deduplicateLoop (seen(key \<mapsto> ts a)) dedupTtlMs alerts
         else deduplicateLoop seen dedupTtlMs alerts)"

definition deduplicateAlerts :: "int \<Rightarrow> Alert list \<Rightarrow> Alert list" where
  "deduplicateAlerts dedupTtlMs alerts = deduplicateLoop Map.empty dedupTtlMs alerts"

section \<open>Episode clustering worker (src/workers/cluster.worker.ts)\<close>

text \<open>
  \<open>vendorMix\<close> is a \<open>Set\<close>; a set iterates in insertion order, so it is a duplicate-free
  list here. The worker holds two maps, \<open>episodes\<close> and \<open>entityEpisodes\<close>, both association
  lists in insertion order.
\<close>

record Episode =
  ep_entity_key :: string
  ep_fingerprint :: string
  vendorMix :: "string list"
  ep_start :: int
  ep_end :: int
  ep_count :: nat
  ids :: "string list"
  ep_alerts :: "Alert list"
  ep_severity :: string

record ClusterState =
  episodes :: "(string \<times> Episode) list"
  entityEpisodes :: "(string \<times> string list) list"

definition emptyClusterState :: ClusterState where
  "emptyClusterState = \<lparr> episodes = [], entityEpisodes = [] \<rparr>"

text \<open>\<open>alert.fingerprint || `${alert.title}|${alert.severity}`\<close>\<close>

definition episodeFingerprint :: "Alert \<Rightarrow> string" where
  "episodeFingerprint a =
     (if fingerprint a \<noteq> [] then fingerprint a
      else (case title a of Some t \<Rightarrow> t | None \<Rightarrow> ''undefined'') @ ''|'' @ severity a)"

definition generateEpisodeKey :: "Alert \<Rightarrow> string" where
  "generateEpisodeKey a = entityKey a @ ''|'' @ episodeFingerprint a"

text \<open>\<open>Map.set\<close> on an association list: an existing key keeps its place.\<close>

fun mapSet :: "('k \<times> 'v) list \<Rightarrow> 'k \<Rightarrow> 'v \<Rightarrow> ('k \<times> 'v) list" where
  "mapSet [] k v = [(k, v)]"
| "mapSet ((k', v') # m) k v = (if k' = k then (k, v) # m else (k', v') # mapSet m k v)"

definition mapDelete :: "('k \<times> 'v) list \<Rightarrow> 'k \<Rightarrow> ('k \<times> 'v) list" where
  "mapDelete m k = filter (\<lambda>p. fst p \<noteq> k) m"

text \<open>
  \<open>getOrCreateEpisode\<close> returns the episode object stored at the alert's key, creating
  and storing one first when the key is absent. The model returns the state and the
  episode's value; the caller writes the mutated value back at the same key, which is what
  mutating the stored object does.
\<close>

definition newEpisode :: "Alert \<Rightarrow> Episode" where
  "newEpisode a =
     \<lparr> ep_entity_key = entityKey a, ep_fingerprint = episodeFingerprint a,
       vendorMix = [source a], ep_start = ts a, ep_end = ts a, ep_count = 1,
       ids = [vendor_event_id a], ep_alerts = [a], ep_severity = severity a \<rparr>"

definition getOrCreateEpisode :: "ClusterState \<Rightarrow> Alert \<Rightarrow> ClusterState \<times> Episode" where
  "getOrCreateEpisode st a =
     (let key = generateEpisodeKey a in
      case map_of (episodes st) key of
        Some episode \<Rightarrow> (st, episode)
      | None \<Rightarrow>
          (let episode = newEpisode a;
               idx = (case map_of (entityEpisodes st) (ep_entity_key episode) of
                        None \<Rightarrow> [] | Some keys \<Rightarrow> keys)
           in (\<lparr> episodes = mapSet (episodes st) key episode,
                  entityEpisodes = mapSet (entityEpisodes st) (ep_entity_key episode) (idx @ [key]) \<rparr>,
               episode)))"

fun getSeverityWeight :: "string \<Rightarrow> nat" where
  "getSeverityWeight s =
     (if s = ''critical'' then 4 else if s = ''high'' then 3 else if s = ''medium'' then 2
      else if s = ''low'' then 1 else 1)"

text \<open>
  \<open>updateEpisode\<close>: when the alert comes more than \<open>gapMs\<close> after the episode's end the
  episode is left alone and the result is \<open>false\<close>; otherwise the episode is extended.
\<close>

definition updateEpisode :: "Episode \<Rightarrow> Alert \<Rightarrow> int \<Rightarrow> Episode \<times> bool" where
  "updateEpisode episode a gapMs =
     (let timeDiff = ts a - ep_end episode in
      if timeDiff > gapMs then (episode, False)
      else
        (let e1 = episode\<lparr> ep_end := ts a, ep_count := ep_count episode + 1,
                           vendorMix := (if source a \<in> set (vendorMix episode) then vendorMix episode
                                         else vendorMix episode @ [source a]) \<rparr>;
             e2 = (if getSeverityWeight (severity a) > getSeverityWeight (ep_severity e1)
                   then e1\<lparr> ep_severity := severity a \<rparr> else e1);
             e3 = (if vendor_event_id a \<notin> set (ids e2)
                   then e2\<lparr> ids := ids e2 @ [vendor_event_id a] \<rparr> else e2);
             e4 = (if length (ep_alerts e3) < 50
                   then e3\<lparr> ep_alerts := ep_alerts e3 @ [a] \<rparr> else e3)
         in (e4, True)))"

text \<open>
  One round of the loop of \<open>self.onmessage\<close>: \<open>getOrCreateEpisode\<close>, then
  \<open>updateEpisode\<close> on the object it returned. The alert is pushed on \<open>processedAlerts\<close>
  in both branches, and nothing else is done when \<open>updateEpisode\<close> returns \<open>false\<close>.
\<close>

definition clusterStep :: "int \<Rightarrow> ClusterState \<Rightarrow> Alert \<Rightarrow> ClusterState" where
  "clusterStep gapMs st a =
     (case getOrCreateEpisode st a of
        (st1, episode) \<Rightarrow>
          (case updateEpisode episode a gapMs of
             (episode', wasUpdated) \<Rightarrow>
               st1\<lparr> episodes := mapSet (episodes st1) (generateEpisodeKey a) episode' \<rparr>))"

fun clusterLoop :: "int \<Rightarrow> ClusterState \<Rightarrow> Alert list \<Rightarrow> ClusterState \<times> Alert list" where
  "clusterLoop gapMs st [] = (st, [])"
| "clusterLoop gapMs st (a # as) =
     (case clusterLoop gapMs (clusterStep gapMs st a) as of
        (st', processedAlerts) \<Rightarrow> (st', a # processedAlerts))"

text \<open>
  \<open>applyBurstClustering\<close> sorts the batch by timestamp and cuts it into clusters at gaps
  above \<open>gapMs\<close>; every cluster is appended to the result whatever its size.
\<close>

fun burstLoop :: "int \<Rightarrow> Alert list \<Rightarrow> Alert list \<Rightarrow> Alert list \<Rightarrow> Alert list" where
  "burstLoop gapMs clusteredAlerts currentCluster [] =
     (if currentCluster \<noteq> [] then clusteredAlerts @ currentCluster else clusteredAlerts)"
| "burstLoop gapMs clusteredAlerts currentCluster (current # rest) =
     (if currentCluster = [] then burstLoop gapMs clusteredAlerts [current] rest
      else if ts current - ts (last currentCluster) \<le> gapMs
           then burstLoop gapMs clusteredAlerts (currentCluster @ [current]) rest
           else burstLoop gapMs (clusteredAlerts @ currentCluster) [current] rest)"

definition applyBurstClustering :: "Alert list \<Rightarrow> int \<Rightarrow> Alert list" where
  "applyBurstClustering alerts gapMs =
     (if alerts = [] then alerts else burstLoop gapMs [] [] (sort_key ts alerts))"

text \<open>
  \<open>cleanupOldEpisodes\<close> deletes every episode that ended before \<open>now - windowMs\<close> and
  takes its key out of the entity index (\<open>indexOf\<close> and \<open>splice\<close> remove the first
  occurrence), deleting the index entry when it becomes empty.
\<close>

definition unindex :: "(string \<times> string list) list \<Rightarrow> string \<Rightarrow> string \<Rightarrow> (string \<times> string list) list" where
  "unindex idx ek key =
     (case map_of idx ek of
        None \<Rightarrow> idx
      | Some keys \<Rightarrow>
          (let keys' = remove1 key keys in
           if keys' = [] then mapDelete idx ek else mapSet idx ek keys'))"

fun cleanupLoop :: "int \<Rightarrow> (string \<times> Episode) list \<Rightarrow> ClusterState \<Rightarrow> ClusterState" where
  "cleanupLoop cutoff [] st = st"
| "cleanupLoop cutoff ((key, episode) # rest) st =
     cleanupLoop cutoff rest
       (if ep_end episode < cutoff
        then \<lparr> episodes = mapDelete (episodes st) key,
               entityEpisodes = unindex (entityEpisodes st) (ep_entity_key episode) key \<rparr>
        else st)"

definition cleanupOldEpisodes :: "int \<Rightarrow> int \<Rightarrow> ClusterState \<Rightarrow> ClusterState" where
  "cleanupOldEpisodes now windowMs st = cleanupLoop (now - windowMs) (episodes st) st"

definition getEpisodesInWindow :: "int \<Rightarrow> int \<Rightarrow> ClusterState \<Rightarrow> Episode list" where
  "getEpisodesInWindow now windowMs st =
     sort_key ep_start (filter (\<lambda>episode. ep_end episode \<ge> now - windowMs) (map snd (episodes st)))"

text \<open>
  The handler of a \<open>cluster\<close> message; the response data are the episodes in the window
  and the alerts kept. The two readings of the wall clock are parameters.
\<close>

definition cluster_onmessage ::
  "int \<Rightarrow> int \<Rightarrow> ClusterState \<Rightarrow> Alert list \<Rightarrow> int \<Rightarrow> int \<Rightarrow> ClusterState \<times> Episode list \<times> Alert list" where
  "cluster_onmessage nowCleanup nowWindow st batch gapMs windowMs =
     (case clusterLoop gapMs st (applyBurstClustering batch gapMs) of
        (st1, processedAlerts) \<Rightarrow>
          (let st2 = cleanupOldEpisodes nowCleanup windowMs st1
           in (st2, getEpisodesInWindow nowWindow windowMs st2, processedAlerts)))"

section \<open>Situation building and scoring worker (src/workers/score.worker.ts)\<close>

text \<open>
  The episodes of a \<open>score\<close> message carry \<open>vendorMix\<close> as an array. \<open>jaccard\<close> takes two
  sets, that is two duplicate-free lists.
\<close>

definition jaccard :: "string list \<Rightarrow> string list \<Rightarrow> real" where
  "jaccard a b =
     (if a = [] \<and> b = [] then 1
      else if a = [] \<or> b = [] then 0
      else (let intersection = filter (\<lambda>x. x \<in> set b) a;
                unionSize = int (length a) + int (length b) - int (length intersection)
            in real (length intersection) / real_of_int unionSize))"

text \<open>
  \<open>joinable\<close> first compares its arguments by identity (\<open>e1 === e2\<close>). An episode object
  is therefore a pair of its identity, the position it has in the array of the message,
  and its value.
\<close>

definition joinable :: "nat \<times> Episode \<Rightarrow> nat \<times> Episode \<Rightarrow> bool" where
  "joinable r1 r2 =
     (let e1 = snd r1; e2 = snd r2 in
      if fst r1 = fst r2 then False
      else (let timeOverlap = \<not> (ep_end e1 < ep_start e2 \<or> ep_end e2 < ep_start e1) in
            if \<not> timeOverlap then False
            else (let entitySimilarity = (if ep_entity_key e1 = ep_entity_key e2 then 1 else 0 :: real);
                      fingerprintSimilarity = (if ep_fingerprint e1 = ep_fingerprint e2 then 1 else 0 :: real);
                      vendorOverlap = jaccard (firstKeys (vendorMix e1)) (firstKeys (vendorMix e2))
                  in entitySimilarity > 0.8 \<or> fingerprintSimilarity > 0.8 \<or> vendorOverlap > 0.3)))"

record Situation =
  situation_id :: "int \<times> int \<times> nat"
  window_start :: int
  window_end :: int
  sit_episodes :: "Episode list"
  related_alerts :: "Alert list"
  blast_entities :: nat
  blast_services :: nat
  primary_cause :: "(string \<times> nat \<times> real \<times> int) option"
  score :: real

text \<open>
  In \<open>Situation\<close>, \<open>situation_id\<close> holds the three numbers that the source prints as
  \<open>S-start-end-length\<close>, \<open>primary_cause\<close> holds \<open>entity\<close>, \<open>episodeIdx\<close>, \<open>confidence\<close> and
  \<open>lag_ms\<close> in this order, and the suggested next actions are left out.

  The union-find of \<open>buildSituations\<close> keys its \<open>parent\<close> map by episode objects, here by
  their positions in the array sorted by start. \<open>find\<close> recurses along parent links with
  path compression; nothing in its text bounds the recursion, so a run that does not
  return is the value \<open>None\<close>.
\<close>

partial_function (option) find_uf :: "(nat \<rightharpoonup> nat) \<Rightarrow> nat \<Rightarrow> ((nat \<rightharpoonup> nat) \<times> nat) option" where
  "find_uf parent x =
     (if parent x = Some x \<or> parent x = None then Some (parent(x \<mapsto> x), x)
      else Option.bind (find_uf parent (the (parent x)))
             (\<lambda>(parent', rt). Some (parent'(x \<mapsto> rt), rt)))"

definition unite :: "(nat \<rightharpoonup> nat) \<Rightarrow> nat \<Rightarrow> nat \<Rightarrow> (nat \<rightharpoonup> nat) option" where
  "unite parent a b =
     Option.bind (find_uf parent a) (\<lambda>(p1, ra).
       Option.bind (find_uf p1 b) (\<lambda>(p2, rb).
         Some (if ra \<noteq> rb then p2(ra \<mapsto> rb) else p2)))"

text \<open>The double loop over \<open>i < j\<close>, as the list of its index pairs.\<close>

definition indexPairs :: "nat \<Rightarrow> (nat \<times> nat) list" where
  "indexPairs n = concat (map (\<lambda>i. map (Pair i) [Suc i..<n]) [0..<n])"

fun joinLoop :: "Episode list \<Rightarrow> (nat \<times> nat) list \<Rightarrow> (nat \<rightharpoonup> nat) \<Rightarrow> (nat \<rightharpoonup> nat) option" where
  "joinLoop eps [] parent = Some parent"
| "joinLoop eps ((i, j) # ps) parent =
     (if joinable (i, eps ! i) (j, eps ! j)
      then Option.bind (unite parent i j) (joinLoop eps ps)
      else joinLoop eps ps parent)"

fun bucketPush :: "(nat \<times> nat list) list \<Rightarrow> nat \<Rightarrow> nat \<Rightarrow> (nat \<times> nat list) list" where
  "bucketPush [] rt i = [(rt, [i])]"
| "bucketPush ((r, is) # bs) rt i =
     (if r = rt then (r, is @ [i]) # bs else (r, is) # bucketPush bs rt i)"

fun bucketLoop :: "nat list \<Rightarrow> (nat \<rightharpoonup> nat) \<Rightarrow> (nat \<times> nat list) list \<Rightarrow> (nat \<times> nat list) list option" where
  "bucketLoop [] parent buckets = Some buckets"
| "bucketLoop (i # is) parent buckets =
     Option.bind (find_uf parent i)
       (\<lambda>(parent', rt). bucketLoop is parent' (bucketPush buckets rt i))"

text \<open>
  One situation per group; an empty group is skipped. \<open>Math.min(...)\<close> and
  \<open>Math.max(...)\<close> of the non-empty group fold over it. A service counts when it is a
  non-empty string (\<open>filter(Boolean)\<close>).
\<close>

fun truthy :: "string option \<Rightarrow> bool" where
  "truthy None = False"
| "truthy (Some s) = (s \<noteq> [])"

fun mkSituation :: "Episode list \<Rightarrow> Alert list \<Rightarrow> Situation list" where
  "mkSituation [] alerts = []"
| "mkSituation (g # gs) alerts =
     (let group = g # gs;
          start = fold min (map ep_start gs) (ep_start g);
          end' = fold max (map ep_end gs) (ep_end g);
          related = filter (\<lambda>a. ts a \<ge> start \<and> ts a \<le> end') alerts;
          uniqueEntities = firstKeys (map ep_entity_key group);
          uniqueServices = firstKeys (concat (map (\<lambda>g. filter truthy (map service (ep_alerts g))) group))
      in [\<lparr> situation_id = (start, end', length group), window_start = start, window_end = end',
            sit_episodes = group, related_alerts = take 200 related,
            blast_entities = length uniqueEntities, blast_services = length uniqueServices,
            primary_cause = None, score = 0 \<rparr>])"

definition buildSituations :: "Episode list \<Rightarrow> Alert list \<Rightarrow> Situation list option" where
  "buildSituations episodes0 alerts =
     (if episodes0 = [] then Some []
      else (let eps = sort_key ep_start episodes0;
                n = length eps;
                parent0 = (\<lambda>i. if i < n then Some i else None)
            in Option.bind (joinLoop eps (indexPairs n) parent0) (\<lambda>parent.
               Option.bind (bucketLoop [0..<n] parent []) (\<lambda>buckets.
                 Some (concat (map (\<lambda>(rt, group). mkSituation (map ((!) eps) group) alerts)
                                 buckets))))))"

text \<open>
  \<open>corrLeadLag\<close>: the timestamps are counted in one-second bins (a \<open>Map\<close> from bin to
  count, in insertion order); for every lag from 0 to \<open>floor(maxLeadMs / 1000)\<close> three sums
  run over the bins of \<open>A\<close>, and the best score so far is replaced only by a strictly
  greater one.
\<close>

fun binsInc :: "(int \<times> nat) list \<Rightarrow> int \<Rightarrow> (int \<times> nat) list" where
  "binsInc [] b = [(b, 1)]"
| "binsInc ((b', c) # m) b = (if b' = b then (b', c + 1) # m else (b', c) # binsInc m b)"

definition toBins :: "int list \<Rightarrow> (int \<times> nat) list" where
  "toBins tss = foldl binsInc [] (map (\<lambda>t. t div 1000) tss)"

definition binCount :: "(int \<times> nat) list \<Rightarrow> int \<Rightarrow> nat" where
  "binCount B b = (case map_of B b of None \<Rightarrow> 0 | Some c \<Rightarrow> c)"

fun lagSums :: "(int \<times> nat) list \<Rightarrow> (int \<times> nat) list \<Rightarrow> int \<Rightarrow> nat \<times> nat \<times> nat" where
  "lagSums [] B lag = (0, 0, 0)"
| "lagSums ((bin, aCount) # A) B lag =
     (case lagSums A B lag of
        (numerator, denomA, denomB) \<Rightarrow>
          (let bCount = binCount B (bin + lag)
           in (aCount * bCount + numerator, aCount * aCount + denomA, bCount * bCount + denomB)))"

definition lagStep :: "(int \<times> nat) list \<Rightarrow> (int \<times> nat) list \<Rightarrow> int \<times> real \<Rightarrow> int \<Rightarrow> int \<times> real" where
  "lagStep A B best lag =
     (case lagSums A B lag of
        (numerator, denomA, denomB) \<Rightarrow>
          if denomA > 0 \<and> denomB > 0
          then (let sc = real numerator / sqrt (real (denomA * denomB))
                in if sc > snd best then (lag * 1000, sc) else best)
          else best)"

definition corrLeadLag :: "int list \<Rightarrow> int list \<Rightarrow> int \<Rightarrow> int \<times> real" where
  "corrLeadLag aTs bTs maxLeadMs =
     (if aTs = [] \<or> bTs = [] then (0, 0)
      else foldl (lagStep (toBins aTs) (toBins bTs)) (0, 0) [0..maxLeadMs div 1000])"

text \<open>
  \<open>shortestPathLen\<close>: breadth-first search over the adjacency object. The object is a plain
  object as it arrives in a message: its own properties, an association list from an
  entity to its array of neighbours, and behind them the members that every plain object
  inherits from \<open>Object.prototype\<close>. Reading \<open>adj[k]\<close> gives the own array when \<open>k\<close> is an
  own key, an inherited member (a function, or the prototype itself for \<open>__proto__\<close>)
  when \<open>k\<close> is one of the names of \<open>Object.prototype\<close>, and \<open>undefined\<close> otherwise. An
  array is truthy even when empty; an inherited member is truthy and not iterable, so
  \<open>for (... of adj[current] || [])\<close> throws a \<open>TypeError\<close> on it. \<open>Infinity\<close> is \<open>\<infinity>\<close> of
  the extended naturals.
\<close>

definition objectPrototypeKeys :: "string list" where
  "objectPrototypeKeys =
     [''constructor'', ''__defineGetter__'', ''__defineSetter__'', ''hasOwnProperty'',
      ''__lookupGetter__'', ''__lookupSetter__'', ''isPrototypeOf'', ''propertyIsEnumerable'',
      ''toString'', ''valueOf'', ''__proto__'', ''toLocaleString'']"

datatype lookup = Undefined | Own "string list" | Inherited

definition getProperty :: "(string \<times> string list) list \<Rightarrow> string \<Rightarrow> lookup" where
  "getProperty adj k =
     (case map_of adj k of
        Some ns \<Rightarrow> Own ns
      | None \<Rightarrow> if k \<in> set objectPrototypeKeys then Inherited else Undefined)"

definition neighbors :: "(string \<times> string list) list \<Rightarrow> string \<Rightarrow> error + string list" where
  "neighbors adj current =
     (case getProperty adj current of
        Undefined \<Rightarrow> Inr []
      | Own ns \<Rightarrow> Inr ns
      | Inherited \<Rightarrow> Inl TypeError)"

datatype visit = Found nat | Continue "(string \<times> nat) list" "string set"

fun visitNeighbors ::
  "string \<Rightarrow> nat \<Rightarrow> string list \<Rightarrow> (string \<times> nat) list \<Rightarrow> string set \<Rightarrow> visit" where
  "visitNeighbors dst distance [] queue seen = Continue queue seen"
| "visitNeighbors dst distance (neighbor # ns) queue seen =
     (if neighbor \<in> seen then visitNeighbors dst distance ns queue seen
      else if neighbor = dst then Found (distance + 1)
      else visitNeighbors dst distance ns (queue @ [(neighbor, distance + 1)]) (insert neighbor seen))"

lemma visitNeighbors_Continue:
  "visitNeighbors dst d ns q seen = Continue q' seen' \<Longrightarrow>
     \<exists>new. q' = q @ map (\<lambda>n. (n, d + 1)) new \<and> seen' = seen \<union> set new \<and> distinct new
         \<and> set new \<inter> seen = {} \<and> set new = set ns - seen"
proof (induction dst d ns q seen rule: visitNeighbors.induct)
  case (1 dst distance queue seen)
  then show ?case by simp
next
  case (2 dst distance neighbor ns queue seen)
  show ?case
  proof (cases "neighbor \<in> seen")
    case True
    with 2 obtain new where "q' = queue @ map (\<lambda>n. (n, distance + 1)) new"
      "seen' = seen \<union> set new" "distinct new" "set new \<inter> seen = {}" "set new = set ns - seen"
      by auto
    with True show ?thesis by (intro exI[of _ new]) auto
  next
    case False
    with 2 have ne: "neighbor \<noteq> dst" by (auto split: if_splits)
    with 2 False obtain new where
      n: "q' = (queue @ [(neighbor, distance + 1)]) @ map (\<lambda>n. (n, distance + 1)) new"
      "seen' = insert neighbor seen \<union> set new" "distinct new"
      "set new \<inter> insert neighbor seen = {}" "set new = set ns - insert neighbor seen"
      by auto
    with False show ?thesis by (intro exI[of _ "neighbor # new"]) auto
  qed
qed

function bfsLoop ::
  "(string \<times> string list) list \<Rightarrow> string \<Rightarrow> nat \<Rightarrow> (string \<times> nat) list \<Rightarrow> string set \<Rightarrow> error + enat" where
  "bfsLoop adj dst limit [] seen = Inr \<infinity>"
| "bfsLoop adj dst limit ((current, distance) # queue) seen =
     (if distance \<ge> limit then bfsLoop adj dst limit queue seen
      else (case neighbors adj current of
              Inl err \<Rightarrow> Inl err
            | Inr ns \<Rightarrow>
                (case visitNeighbors dst distance ns queue seen of
                   Found r \<Rightarrow> Inr (enat r)
                 | Continue queue' seen' \<Rightarrow> bfsLoop adj dst limit queue' seen')))"
  by pat_completeness auto

lemma neighbors_nodes: "neighbors adj v = Inr ns \<Longrightarrow> set ns \<subseteq> set (concat (map snd adj))"
proof (cases "map_of adj v")
  case None
  assume "neighbors adj v = Inr ns"
  with None show ?thesis by (simp add: neighbors_def getProperty_def split: if_splits)
next
  case (Some ms)
  assume n: "neighbors adj v = Inr ns"
  from Some have "(v, ms) \<in> set adj" by (rule map_of_SomeD)
  then have "set ms \<subseteq> set (concat (map snd adj))" by force
  with Some n show ?thesis by (simp add: neighbors_def getProperty_def)
qed

termination bfsLoop
proof (relation "measure (\<lambda>(adj, dst, limit, queue, seen).
          2 * card (set (concat (map snd adj)) - seen) + length queue)", goal_cases)
  case 1
  then show ?case by simp
next
  case (2 adj dst limit current distance queue seen)
  then show ?case by simp
next
  case (3 adj dst limit current distance queue seen ns queue' seen')
  let ?N = "set (concat (map snd adj))"
  from 3(3) obtain new where new: "queue' = queue @ map (\<lambda>n. (n, distance + 1)) new"
    "seen' = seen \<union> set new" "distinct new" "set new \<inter> seen = {}"
    "set new = set ns - seen"
    using visitNeighbors_Continue[of dst distance ns queue seen queue' seen']
    by auto
  have sub: "set new \<subseteq> ?N - seen"
    using new(4,5) neighbors_nodes[OF 3(2)] by auto
  have "?N - seen' = (?N - seen) - set new" using new(2) by auto
  then have "card (?N - seen') = card (?N - seen) - card (set new)"
    using sub by (simp add: card_Diff_subset)
  moreover have "card (set new) \<le> card (?N - seen)"
    using sub by (intro card_mono) auto
  moreover have "card (set new) = length new"
    using new(3) by (simp add: distinct_card)
  ultimately show ?case using new(1) by simp
qed

text \<open>
  The guard \<open>!adj[src] || !adj[dst]\<close> holds only for an endpoint that reads as
  \<open>undefined\<close>.
\<close>

definition shortestPathLen ::
  "(string \<times> string list) list \<Rightarrow> string \<Rightarrow> string \<Rightarrow> nat \<Rightarrow> error + enat" where
  "shortestPathLen adj src dst limit =
     (if src = dst then Inr 0
      else if getProperty adj src = Undefined \<or> getProperty adj dst = Undefined then Inr \<infinity>
      else bfsLoop adj dst limit [(src, 0)] {src})"

fun severityWeight :: "string \<Rightarrow> real" where
  "severityWeight s =
     (if s = ''critical'' then 1.0 else if s = ''high'' then 0.75 else if s = ''medium'' then 0.5
      else if s = ''low'' then 0.25 else 0.25)"

text \<open>
  \<open>scoreSituation\<close>, in the pieces its body computes one after the other. The candidate
  cause is the first episode of the copy sorted by start, the others are the effects.
  A situation without episodes is left as it is.
\<close>

definition bestLagOf :: "Episode \<Rightarrow> Episode list \<Rightarrow> int \<Rightarrow> int \<times> real" where
  "bestLagOf cause others maxLeadMs =
     foldl (\<lambda>bestLag episode.
              (let lag = corrLeadLag (map ts (ep_alerts cause)) (map ts (ep_alerts episode)) maxLeadMs
               in if snd lag > snd bestLag then lag else bestLag))
           (0, 0) others"

text \<open>
  The loop over the effects that keeps the least path length; a \<open>TypeError\<close> thrown by
  \<open>shortestPathLen\<close> ends it and leaves \<open>scoreSituation\<close> before the situation is
  written.
\<close>

fun bestPathLoop ::
  "(string \<times> string list) list \<Rightarrow> Episode \<Rightarrow> enat \<Rightarrow> Episode list \<Rightarrow> error + enat" where
  "bestPathLoop adj cause bestPath [] = Inr bestPath"
| "bestPathLoop adj cause bestPath (episode # others) =
     (case shortestPathLen adj (ep_entity_key cause) (ep_entity_key episode) 4 of
        Inl err \<Rightarrow> Inl err
      | Inr pathLen \<Rightarrow>
          bestPathLoop adj cause (if pathLen < bestPath then pathLen else bestPath) others)"

definition bestPathOf :: "(string \<times> string list) list \<Rightarrow> Episode \<Rightarrow> Episode list \<Rightarrow> error + enat" where
  "bestPathOf adj cause others = bestPathLoop adj cause \<infinity> others"

definition pathScoreOf :: "enat \<Rightarrow> real" where
  "pathScoreOf bestPath = (case bestPath of \<infinity> \<Rightarrow> 0 | enat d \<Rightarrow> 1 / (1 + real d))"

definition changeProxOf :: "Situation \<Rightarrow> real" where
  "changeProxOf situation =
     (if list_ex (\<lambda>a. truthy (deploy_key a) \<and> \<bar>ts a - window_start situation\<bar> \<le> 10 * 60000)
           (related_alerts situation)
      then 1.0 else 0.2)"

definition echoPenaltyOf :: "Situation \<Rightarrow> real" where
  "echoPenaltyOf situation =
     max 0 (real_of_int (int (foldl (\<lambda>acc ep. acc + length (vendorMix ep)) 0 (sit_episodes situation))
                         - int (length (sit_episodes situation))) * 0.05)"

text \<open>The composite of a situation, from the best lag and the best path of its effects.\<close>

definition compositeOf :: "Situation \<Rightarrow> int \<times> real \<Rightarrow> enat \<Rightarrow> real" where
  "compositeOf situation bestLag bestPath =
     (let pathScore = pathScoreOf bestPath;
          cardinality = ln (1 + real (blast_entities situation));
          sev = (case map (severityWeight \<circ> ep_severity) (sit_episodes situation) of
                   [] \<Rightarrow> 0 | w # ws \<Rightarrow> fold max ws w);
          flapPenalty = 0
      in 0.35 * changeProxOf situation + 0.2 * snd bestLag + 0.2 * pathScore
         + 0.15 * cardinality + 0.15 * sev - 0.1 * flapPenalty
         - 0.05 * echoPenaltyOf situation)"

definition scoreSituation ::
  "Situation \<Rightarrow> (string \<times> string list) list \<Rightarrow> int \<Rightarrow> error + Situation" where
  "scoreSituation situation adj maxLeadMs =
     (case sort_key (ep_start \<circ> snd) (zip [0..<length (sit_episodes situation)] (sit_episodes situation)) of
        [] \<Rightarrow> Inr situation
      | cause # others \<Rightarrow>
          (let bestLag = bestLagOf (snd cause) (map snd others) maxLeadMs
           in case bestPathOf adj (snd cause) (map snd others) of
                Inl err \<Rightarrow> Inl err
              | Inr bestPath \<Rightarrow>
                  (let composite = compositeOf situation bestLag bestPath
                   in Inr (situation\<lparr> primary_cause :=
                                       Some (ep_entity_key (snd cause), fst cause, min 1 composite,
                                             fst bestLag),
                                     score := composite \<rparr>))))"

section \<open>Threshold engine (enhanced correlator: K8sEvent, Alert, K8sEventProcessor)\<close>










text \<open>
  The alert the \<open>Alert\<close> constructor builds from the data of \<open>createAlertFromRule\<close>.
  \<open>ga_id\<close> holds the source, the reading of \<open>Date.now()\<close> and the random suffix that
  the constructor prints into the id; \<open>ga_message\<close> holds the rule name, the count and the
  window that are printed into the message; timestamps that the source carries as ISO
  strings are milliseconds. The constant fields (\<open>env\<close>, \<open>region\<close>, \<open>node\<close>,
  \<open>error_code\<close>, \<open>deploy_key\<close>, \<open>net_key\<close>) are left out.
\<close>

record GenAlert =
  ga_id :: "string \<times> int \<times> string"
  ga_source :: string
  ga_ts :: int
  ga_status :: string
  ga_severity :: string
  ga_title :: string
  ga_message :: "string \<times> nat \<times> int"
  ga_namespace :: string
  ga_service :: string
  ga_component :: string
  ga_resource :: string
  ga_cluster :: string
  ga_pod :: string
  ga_count :: nat
  ga_window :: int
  ga_first_ts :: int
  ga_last_ts :: int
  ga_tags :: "(string \<times> string) list"
  ga_entity_key :: string
  ga_k8s_key :: string
  ga_fingerprint :: string







text \<open>
  The processor's state; \<open>created\<close> counts the alerts constructed so far and selects the
  platform readings of the next one.
\<close>

record ProcState =
  ruleStates :: "string \<rightharpoonup> int list"
  cooldowns :: "string \<rightharpoonup> int"
  generatedAlerts :: "GenAlert list"
  created :: nat


text \<open>\<open>cooldownEnd && now < cooldownEnd\<close>: an absent or zero end is not a cooldown.\<close>

definition isInCooldown :: "ProcState \<Rightarrow> string \<Rightarrow> int \<Rightarrow> bool" where
  "isInCooldown st ruleKey now =
     (case cooldowns st ruleKey of None \<Rightarrow> False | Some cooldownEnd \<Rightarrow> cooldownEnd \<noteq> 0 \<and> now < cooldownEnd)"




section \<open>Vocabulary of the statements\<close>

text \<open>
  The directed graph of the adjacency hints: an edge leads from an own key to each member
  of its array. \<open>isDist adj src v d\<close> says that \<open>d\<close> is the length of a shortest directed
  path from \<open>src\<close> to \<open>v\<close>, and \<open>pathLen\<close> is that length, \<open>\<infinity>\<close> when there is no path.
  \<open>boundedDist\<close> is the distance that the scorer is to report: 0 between equal entities,
  \<open>\<infinity>\<close> when an endpoint is not an own key or the path is longer than the limit.
  \<open>plainNames adj ks\<close> says that none of the entities \<open>ks\<close> and none of the entities in the
  arrays of \<open>adj\<close> reads as an inherited member of \<open>Object.prototype\<close>.
\<close>

definition ownNeighbors :: "(string \<times> string list) list \<Rightarrow> string \<Rightarrow> string list" where
  "ownNeighbors adj u = (case map_of adj u of None \<Rightarrow> [] | Some ns \<Rightarrow> ns)"

definition edges :: "(string \<times> string list) list \<Rightarrow> (string \<times> string) set" where
  "edges adj = {(u, v). v \<in> set (ownNeighbors adj u)}"

definition isDist :: "(string \<times> string list) list \<Rightarrow> string \<Rightarrow> string \<Rightarrow> nat \<Rightarrow> bool" where
  "isDist adj src v d = ((src, v) \<in> edges adj ^^ d \<and> (\<forall>m<d. (src, v) \<notin> edges adj ^^ m))"

definition pathLen :: "(string \<times> string list) list \<Rightarrow> string \<Rightarrow> string \<Rightarrow> enat" where
  "pathLen adj src dst =
     (if \<exists>d. (src, dst) \<in> edges adj ^^ d then enat (LEAST d. (src, dst) \<in> edges adj ^^ d)
      else \<infinity>)"

definition boundedDist :: "(string \<times> string list) list \<Rightarrow> string \<Rightarrow> string \<Rightarrow> nat \<Rightarrow> enat" where
  "boundedDist adj src dst limit =
     (if src = dst then 0
      else if map_of adj src = None \<or> map_of adj dst = None then \<infinity>
      else if pathLen adj src dst \<le> enat limit then pathLen adj src dst else \<infinity>)"

definition plainNames :: "(string \<times> string list) list \<Rightarrow> string list \<Rightarrow> bool" where
  "plainNames adj ks =
     (\<forall>v\<in>set ks \<union> set (concat (map snd adj)). getProperty adj v \<noteq> Inherited)"

text \<open>The invariant of the search loop, for a queue and a set of seen entities.\<close>

definition bfsInv ::
  "(string \<times> string list) list \<Rightarrow> string \<Rightarrow> string \<Rightarrow> nat \<Rightarrow> (string \<times> nat) list \<Rightarrow> string set \<Rightarrow> bool" where
  "bfsInv adj src dst limit q seen =
     ((\<forall>p\<in>set q. fst p \<in> seen \<and> isDist adj src (fst p) (snd p) \<and> snd p \<le> limit)
      \<and> sorted (map snd q)
      \<and> (\<forall>d\<in>snd ` set q. \<forall>d'\<in>snd ` set q. d' \<le> Suc d)
      \<and> (\<forall>u\<in>seen. u \<notin> fst ` set q \<longrightarrow>
            (\<forall>m. isDist adj src u m \<longrightarrow> m < limit \<longrightarrow> set (ownNeighbors adj u) \<subseteq> seen))
      \<and> dst \<notin> seen \<and> src \<in> seen)"

text \<open>
  The parent links of the union-find, read as a relation: \<open>rootOf parent x r\<close> says that
  following the links from \<open>x\<close> ends at \<open>r\<close>, an entry that is its own parent.
\<close>

inductive rootOf :: "(nat \<rightharpoonup> nat) \<Rightarrow> nat \<Rightarrow> nat \<Rightarrow> bool" for parent where
  self: "parent x = Some x \<Longrightarrow> rootOf parent x x"
| link: "parent x = Some y \<Longrightarrow> y \<noteq> x \<Longrightarrow> rootOf parent y r \<Longrightarrow> rootOf parent x r"

text \<open>
  The Jaccard index of two sets (two empty sets count as 1, as in the code). For a list of
  episodes, \<open>linked\<close> is the relation of \<open>joinable\<close> on their positions, \<open>chained\<close> its
  reflexive and transitive closure, and \<open>components\<close> lists the classes of \<open>chained\<close>, each
  in ascending order and the classes in order of their least position.
\<close>

definition jaccardIndex :: "string set \<Rightarrow> string set \<Rightarrow> real" where
  "jaccardIndex A B = (if A = {} \<and> B = {} then 1 else real (card (A \<inter> B)) / real (card (A \<union> B)))"

definition linked :: "Episode list \<Rightarrow> (nat \<times> nat) set" where
  "linked eps = {(i, j). i < length eps \<and> j < length eps \<and> joinable (i, eps ! i) (j, eps ! j)}"

definition chained :: "Episode list \<Rightarrow> nat \<Rightarrow> nat \<Rightarrow> bool" where
  "chained eps i j = ((i, j) \<in> (linked eps)\<^sup>*)"

definition components :: "Episode list \<Rightarrow> nat list list" where
  "components eps =
     map (\<lambda>i. filter (chained eps i) [0..<length eps])
         (filter (\<lambda>i. \<forall>j<i. \<not> chained eps j i) [0..<length eps])"

text \<open>
  Histograms over one-second bins: \<open>hist tss b\<close> counts the timestamps of \<open>tss\<close> in bin
  \<open>b\<close>, and \<open>binsOf tss\<close> are the bins that are not empty. \<open>overlapSim\<close> is the
  similarity with the norm of the shifted effect histogram taken over the bins of the
  cause only; \<open>cosineSim\<close> follows the words of the specification, with the norm of the
  whole effect histogram. (In HOL a quotient by zero is zero.)
\<close>

definition hist :: "int list \<Rightarrow> int \<Rightarrow> nat" where
  "hist tss b = length (filter (\<lambda>t. t div 1000 = b) tss)"

definition binsOf :: "int list \<Rightarrow> int set" where
  "binsOf tss = (\<lambda>t. t div 1000) ` set tss"

definition overlapSim :: "int list \<Rightarrow> int list \<Rightarrow> int \<Rightarrow> real" where
  "overlapSim aTs bTs lag =
     real (\<Sum>i\<in>binsOf aTs. hist aTs i * hist bTs (i + lag)) /
     sqrt (real ((\<Sum>i\<in>binsOf aTs. hist aTs i * hist aTs i) *
                 (\<Sum>i\<in>binsOf aTs. hist bTs (i + lag) * hist bTs (i + lag))))"




section \<open>Scenario inputs\<close>

text \<open>
  An alert of the service \<open>checkout\<close> with fingerprint \<open>cpu_high\<close>, at a given time and
  status; \<open>otherAlert\<close> is an alert of the service \<open>payments\<close>.
\<close>

definition exAlert :: "int \<Rightarrow> status \<Rightarrow> Alert" where
  "exAlert t s =
     \<lparr> ts = t, source = ''datadog'', vendor_event_id = ''evt-1'', fingerprint = ''cpu_high'',
       title = None, status = s, severity = ''high'', kind = ''metric'',
       service = Some ''checkout'', component = None, resource = None, entity_key = None,
       deploy_key = None \<rparr>"

definition otherAlert :: "int \<Rightarrow> Alert" where
  "otherAlert t =
     \<lparr> ts = t, source = ''k8s'', vendor_event_id = ''evt-2'', fingerprint = ''pod_restart'',
       title = None, status = firing, severity = ''medium'', kind = ''event'',
       service = Some ''payments'', component = None, resource = None, entity_key = None,
       deploy_key = None \<rparr>"

text \<open>An alert as \<open>exAlert\<close>, firing, with a vendor event id of its own.\<close>

definition evAlert :: "int \<Rightarrow> string \<Rightarrow> Alert" where
  "evAlert t i = (exAlert t firing)\<lparr> vendor_event_id := i \<rparr>"

text \<open>
  The single episode the clusterer holds after alerts at \<open>t\<close>, \<open>t + 60000\<close> and
  \<open>t + 300000\<close> on one key.
\<close>

definition gapEpisode :: Episode where
  "gapEpisode =
     \<lparr> ep_entity_key = ''checkout'', ep_fingerprint = ''cpu_high'', vendorMix = [''datadog''],
       ep_start = 1700000000000, ep_end = 1700000060000, ep_count = 3, ids = [''e1'', ''e2''],
       ep_alerts = [evAlert 1700000000000 ''e1'', evAlert 1700000000000 ''e1'',
                    evAlert 1700000060000 ''e2''],
       ep_severity = ''high'' \<rparr>"

text \<open>
  Two episodes that overlap in time, on different entities and with different
  fingerprints, whose source mixes share one source of three.
\<close>

definition svcA :: Episode where
  "svcA =
     \<lparr> ep_entity_key = ''svc-a|api'', ep_fingerprint = ''latency_high'',
       vendorMix = [''k8s'', ''datadog''], ep_start = 1700000000000, ep_end = 1700000120000,
       ep_count = 2, ids = [''a1'', ''a2''], ep_alerts = [], ep_severity = ''medium'' \<rparr>"

definition svcB :: Episode where
  "svcB =
     \<lparr> ep_entity_key = ''svc-b|api'', ep_fingerprint = ''error_rate'',
       vendorMix = [''datadog'', ''logicmonitor''], ep_start = 1700000060000,
       ep_end = 1700000180000, ep_count = 2, ids = [''b1'', ''b2''], ep_alerts = [],
       ep_severity = ''medium'' \<rparr>"

text \<open>
  Three overlapping episodes: the first and the second differ in entity key and
  fingerprint and have disjoint source mixes; the third is on the entity of the first
  with the fingerprint of the second.
\<close>

definition linkA :: Episode where
  "linkA =
     \<lparr> ep_entity_key = ''svc-a|api'', ep_fingerprint = ''latency_high'', vendorMix = [''k8s''],
       ep_start = 1700000000000, ep_end = 1700000120000, ep_count = 1, ids = [''a1''],
       ep_alerts = [], ep_severity = ''medium'' \<rparr>"

definition linkB :: Episode where
  "linkB =
     \<lparr> ep_entity_key = ''svc-b|api'', ep_fingerprint = ''error_rate'', vendorMix = [''datadog''],
       ep_start = 1700000030000, ep_end = 1700000150000, ep_count = 1, ids = [''b1''],
       ep_alerts = [], ep_severity = ''medium'' \<rparr>"

definition linkC :: Episode where
  "linkC =
     \<lparr> ep_entity_key = ''svc-a|api'', ep_fingerprint = ''error_rate'',
       vendorMix = [''logicmonitor''], ep_start = 1700000060000, ep_end = 1700000180000,
       ep_count = 1, ids = [''c1''], ep_alerts = [], ep_severity = ''medium'' \<rparr>"

text \<open>Episodes on the entities \<open>a\<close> and \<open>c\<close>, overlapping in time.\<close>

definition epOn :: "string \<Rightarrow> int \<Rightarrow> Episode" where
  "epOn e t =
     \<lparr> ep_entity_key = e, ep_fingerprint = ''disk_full'', vendorMix = [''datadog''],
       ep_start = t, ep_end = t + 60000, ep_count = 1, ids = [''x1''], ep_alerts = [],
       ep_severity = ''medium'' \<rparr>"

text \<open>
  A situation of one hundred episodes on one entity, each fed by the four vendors with
  one retained alert per vendor, all at low severity and without a deploy key.
\<close>

definition echoAlert :: "string \<Rightarrow> Alert" where
  "echoAlert v =
     \<lparr> ts = 1700000000000, source = v, vendor_event_id = v, fingerprint = ''conn_errors'',
       title = None, status = firing, severity = ''low'', kind = ''metric'', service = Some ''db'',
       component = None, resource = None, entity_key = None, deploy_key = None \<rparr>"

definition echoEpisode :: "nat \<Rightarrow> Episode" where
  "echoEpisode i =
     \<lparr> ep_entity_key = ''db'', ep_fingerprint = ''conn_errors_'' @ replicate i (CHR ''i''),
       vendorMix = [''datadog'', ''logicmonitor'', ''k8s'', ''other''],
       ep_start = 1700000000000, ep_end = 1700000000000, ep_count = 4,
       ids = [''datadog'', ''logicmonitor'', ''k8s'', ''other''],
       ep_alerts = map echoAlert [''datadog'', ''logicmonitor'', ''k8s'', ''other''],
       ep_severity = ''low'' \<rparr>"

definition echoSituation :: Situation where
  "echoSituation =
     \<lparr> situation_id = (1700000000000, 1700000000000, 100),
       window_start = 1700000000000, window_end = 1700000000000,
       sit_episodes = echoEpisode 0 # map echoEpisode [1..<100],
       related_alerts = map echoAlert [''datadog'', ''logicmonitor'', ''k8s'', ''other''],
       blast_entities = 1, blast_services = 1, primary_cause = None, score = 0 \<rparr>"



definition dedupMsg :: "Alert list \<Rightarrow> DedupMessage" where
  "dedupMsg as = \<lparr> msg_type = ''dedup'', msg_batch = as, msg_ttlMs = 120000 \<rparr>"

text \<open>A state in which the key of \<open>exAlert\<close> has accumulated four flaps.\<close>

definition flappedState :: DedupState where
  "flappedState =
     \<lparr> lastSeen = [''cpu_high|high|checkout|checkout'' \<mapsto> 1700000000000],
       counts = [''cpu_high|high|checkout|checkout'' \<mapsto> 5],
       flapCounts = [''cpu_high|high|checkout|checkout'' \<mapsto> 4],
       lastToggle = [''cpu_high|high|checkout|checkout'' \<mapsto> firing] \<rparr>"

section \<open>Deduplicator: facts about the model\<close>

lemma exAlert_entityKey: "entityKey (exAlert t s) = ''checkout''"
  by (simp add: exAlert_def entityKey_def)

lemma exAlert_key: "generateDedupKey (exAlert t s) = ''cpu_high|high|checkout|checkout''"
  unfolding generateDedupKey_def generateFingerprint_def exAlert_entityKey
  by (simp add: sanitize_char_def toLowerCase_char_def exAlert_def)

lemma exAlert_sel: "ts (exAlert t s) = t" "status (exAlert t s) = s"
  by (simp_all add: exAlert_def)

lemma otherAlert_entityKey: "entityKey (otherAlert t) = ''payments''"
  by (simp add: otherAlert_def entityKey_def)

lemma otherAlert_sel: "ts (otherAlert t) = t"
  by (simp_all add: otherAlert_def)

lemma updateDedupState_new:
  assumes "\<not> isDuplicate st a ttl"
  shows "updateDedupState st a ttl =
   (st\<lparr>lastSeen := (lastSeen st)(generateDedupKey a \<mapsto> ts a),
               counts := (counts st)(generateDedupKey a \<mapsto> 1),
               lastToggle := (lastToggle st)(generateDedupKey a \<mapsto> status a)\<rparr>, False, 1)"
  using assms by (simp add: updateDedupState_def isDuplicate_def Let_def)

lemma updateDedupState_dup:
  assumes "isDuplicate st a ttl"
  shows "updateDedupState st a ttl =
   (st\<lparr>counts := (counts st)(generateDedupKey a \<mapsto> get_or0 (counts st) (generateDedupKey a) + 1),
       flapCounts := (if lastToggle st (generateDedupKey a) \<notin> {None, Some (status a)}
                      then (flapCounts st)(generateDedupKey a \<mapsto> get_or0 (flapCounts st) (generateDedupKey a) + 1)
                      else flapCounts st),
       lastToggle := (lastToggle st)(generateDedupKey a \<mapsto> status a)\<rparr>, True,
       get_or0 (counts st) (generateDedupKey a) + 1)"
  using assms by (auto simp add: updateDedupState_def isDuplicate_def Let_def split: option.splits)

lemma flapCounts_update_mono:
  "get_or0 (flapCounts st) k \<le> get_or0 (flapCounts (fst (updateDedupState st b ttl))) k"
  by (cases "isDuplicate st b ttl") (simp_all add: updateDedupState_new updateDedupState_dup get_or0_def)

lemma flapCounts_update_keeps:
  "flapCounts st k \<noteq> None \<Longrightarrow> flapCounts (fst (updateDedupState st b ttl)) k \<noteq> None"
  by (cases "isDuplicate st b ttl") (simp_all add: updateDedupState_new updateDedupState_dup)

lemma rateLimitEntity_short:
  "n + length xs \<le> maxAlertsPerMinute \<Longrightarrow> rateLimitEntity now n xs = xs"
  by (induction xs arbitrary: n) auto

lemma groupPush_sum: "sum_list (map (\<lambda>p. length (snd p)) (groupPush g k a)) = Suc (sum_list (map (\<lambda>p. length (snd p)) g))"
  by (induction g k a rule: groupPush.induct) auto

lemma groupByEntity_sum: "sum_list (map (\<lambda>p. length (snd p)) (groupByEntity g as)) = sum_list (map (\<lambda>p. length (snd p)) g) + length as"
  by (induction g as rule: groupByEntity.induct) (auto simp: groupPush_sum)

lemma groupPush_set: "(\<Union>p\<in>set (groupPush g k a). set (snd p)) = insert a (\<Union>p\<in>set g. set (snd p))"
  by (induction g k a rule: groupPush.induct) auto

lemma groupByEntity_set: "(\<Union>p\<in>set (groupByEntity g as). set (snd p)) = (\<Union>p\<in>set g. set (snd p)) \<union> set as"
  by (induction g as rule: groupByEntity.induct) (auto simp: groupPush_set)

lemma group_le_total: "p \<in> set g \<Longrightarrow> length (snd p) \<le> sum_list (map (\<lambda>p. length (snd p)) g)"
  by (induction g) auto

lemma applyRateLimiting_small:
  assumes "length alerts \<le> maxAlertsPerMinute"
  shows "set (applyRateLimiting now alerts) = set alerts"
proof -
  have le: "length (snd p) \<le> maxAlertsPerMinute" if "p \<in> set (groupByEntity [] alerts)" for p
    using group_le_total[OF that] assms by (simp add: groupByEntity_sum)
  have "set (applyRateLimiting now alerts) = (\<Union>p\<in>set (groupByEntity [] alerts). set (snd p))"
    unfolding applyRateLimiting_def using le
    by (auto simp: rateLimitEntity_short split: prod.splits)
  then show ?thesis by (simp add: groupByEntity_set)
qed

lemma processBatch_Cons:
  "snd (processBatch st ttl (a # rest)) =
     (if keepAlert (fst (updateDedupState st a ttl)) a (fst (snd (updateDedupState st a ttl)))
      then [a] else []) @ snd (processBatch (fst (updateDedupState st a ttl)) ttl rest)"
  by (simp split: prod.splits)

lemma processBatch_length: "length (snd (processBatch st ttl xs)) \<le> length xs"
proof (induction xs arbitrary: st)
  case Nil
  then show ?case by simp
next
  case (Cons a xs)
  have "length (snd (processBatch st ttl (a # xs))) \<le>
        Suc (length (snd (processBatch (fst (updateDedupState st a ttl)) ttl xs)))"
    by (simp add: processBatch_Cons del: processBatch.simps)
  with Cons[of "fst (updateDedupState st a ttl)"] show ?case by simp
qed

lemma garbageCollect_flapCounts:
  "flapCounts (garbageCollect now st) k = (if stale now st k then None else flapCounts st k)"
  by (simp add: garbageCollect_def)

lemma dedup_onmessage_data:
  "responseData (snd (dedup_onmessage nowRate nowGc st \<lparr>msg_type = ''dedup'', msg_batch = b, msg_ttlMs = ttl\<rparr>)) =
     applyRateLimiting nowRate (snd (processBatch st ttl b))"
  by (simp add: dedup_onmessage_def split: prod.splits)

text \<open>
  Claim C10. An alert that \<open>updateDedupState\<close> classifies as new (its timestamp is at
  least \<open>ttlMs\<close> after the key's last-seen time, an absent key counting as time 0) is
  reported as not a duplicate and is pushed on \<open>processedAlerts\<close> whatever flap count its
  key has accumulated; the step leaves \<open>flapCounts\<close> as it was, so the count is not reset.
  When the batch has at most 100 alerts the rate limiter drops nothing and the alert is in
  the response. No update ever removes a flap count; \<open>garbageCollect\<close> removes it exactly
  for the stale keys.
\<close>

theorem new_alert_passes_whatever_flapCount:
  assumes new: "\<not> isDuplicate st a ttl"
  shows "fst (snd (updateDedupState st a ttl)) = False
       \<and> snd (processBatch st ttl (a # rest)) =
           a # snd (processBatch (fst (updateDedupState st a ttl)) ttl rest)
       \<and> flapCounts (fst (updateDedupState st a ttl)) = flapCounts st
       \<and> (length (a # rest) \<le> maxAlertsPerMinute \<longrightarrow>
            a \<in> set (responseData (snd (dedup_onmessage nowRate nowGc st
                        \<lparr>msg_type = ''dedup'', msg_batch = a # rest, msg_ttlMs = ttl\<rparr>))))
       \<and> flapCounts (garbageCollect now st) k = (if stale now st k then None else flapCounts st k)
       \<and> (flapCounts st k \<noteq> None \<longrightarrow> flapCounts (fst (updateDedupState st b ttl')) k \<noteq> None)"
proof -
  have u: "updateDedupState st a ttl =
     (st\<lparr>lastSeen := (lastSeen st)(generateDedupKey a \<mapsto> ts a),
         counts := (counts st)(generateDedupKey a \<mapsto> 1),
         lastToggle := (lastToggle st)(generateDedupKey a \<mapsto> status a)\<rparr>, False, 1)"
    by (rule updateDedupState_new[OF new])
  have kept: "snd (processBatch st ttl (a # rest)) =
           a # snd (processBatch (fst (updateDedupState st a ttl)) ttl rest)"
    by (simp add: processBatch_Cons u keepAlert_def del: processBatch.simps)
  have down: "a \<in> set (responseData (snd (dedup_onmessage nowRate nowGc st
                        \<lparr>msg_type = ''dedup'', msg_batch = a # rest, msg_ttlMs = ttl\<rparr>)))"
    if len: "length (a # rest) \<le> maxAlertsPerMinute"
  proof -
    have "length (snd (processBatch st ttl (a # rest))) \<le> maxAlertsPerMinute"
      using processBatch_length[of st ttl "a # rest"] len by linarith
    then have "set (applyRateLimiting nowRate (snd (processBatch st ttl (a # rest)))) =
               set (snd (processBatch st ttl (a # rest)))"
      by (rule applyRateLimiting_small)
    then show ?thesis
      unfolding dedup_onmessage_data kept by simp
  qed
  show ?thesis
    using kept down flapCounts_update_keeps[of st k b ttl']
    by (simp add: u garbageCollect_flapCounts)
qed

theorem new_alert_passes_whatever_flapCount_witness:
  "\<not> isDuplicate flappedState (exAlert 1700000200000 resolved) 120000
   \<and> get_or0 (flapCounts flappedState) (generateDedupKey (exAlert 1700000200000 resolved)) = 4
   \<and> snd (processBatch flappedState 120000 [exAlert 1700000200000 resolved]) =
       [exAlert 1700000200000 resolved]
   \<and> exAlert 1700000200000 resolved \<in> set (responseData (snd (dedup_onmessage 1700000200500 1700000200500
           flappedState \<lparr>msg_type = ''dedup'', msg_batch = [exAlert 1700000200000 resolved], msg_ttlMs = 120000\<rparr>)))
   \<and> flapCounts (fst (updateDedupState flappedState (exAlert 1700000200000 resolved) 120000))
        ''cpu_high|high|checkout|checkout'' = Some 4
   \<and> flapCounts (garbageCollect 1700000900000 flappedState) ''cpu_high|high|checkout|checkout'' = None"
proof -
  have new: "\<not> isDuplicate flappedState (exAlert 1700000200000 resolved) 120000"
    by (simp add: isDuplicate_def exAlert_key exAlert_sel flappedState_def get_or0_def)
  have st: "stale 1700000900000 flappedState ''cpu_high|high|checkout|checkout''"
    by (simp add: stale_def flappedState_def maxAge_def)
  have fc: "flapCounts flappedState ''cpu_high|high|checkout|checkout'' = Some 4"
    by (simp add: flappedState_def)
  show ?thesis
    using new st fc
      new_alert_passes_whatever_flapCount[OF new, of "[]" 1700000200500 1700000200500
        1700000900000 "''cpu_high|high|checkout|checkout''" "exAlert 1700000200000 resolved" 120000]
    by (simp add: exAlert_key get_or0_def maxAlertsPerMinute_def)
qed

lemma keepAlert_dup:
  "keepAlert st a True = (\<not> get_or0 (flapCounts st) (generateDedupKey a) > 3)"
  by (simp add: keepAlert_def)

text \<open>
  Claim C4, as amended. For a duplicate (an alert arriving less than \<open>ttlMs\<close> after the
  last-seen time of its key) the flap count of the key is incremented exactly when a last
  status is stored and differs from the alert's status, and the alert is left out of
  \<open>processedAlerts\<close> exactly when the flap count, after this update, is above the fixed
  threshold 3. Four alerts on one key with statuses firing, resolved, firing, resolved
  make three toggles, so the flap count reaches 3 and all four are passed; a fifth toggle
  is the first alert dropped.
\<close>

theorem flap_count_and_drop_rule:
  "(isDuplicate st a ttl \<longrightarrow>
      fst (snd (updateDedupState st a ttl)) = True
    \<and> flapCounts (fst (updateDedupState st a ttl)) (generateDedupKey a) =
        (if lastToggle st (generateDedupKey a) \<notin> {None, Some (status a)}
         then Some (get_or0 (flapCounts st) (generateDedupKey a) + 1)
         else flapCounts st (generateDedupKey a))
    \<and> snd (processBatch st ttl (a # rest)) =
        (if get_or0 (flapCounts (fst (updateDedupState st a ttl))) (generateDedupKey a) > 3
         then [] else [a]) @ snd (processBatch (fst (updateDedupState st a ttl)) ttl rest))
   \<and> responseData (snd (dedup_onmessage nowRate nowGc emptyDedupState
         (dedupMsg [exAlert 1700000000000 firing, exAlert 1700000001000 resolved,
                    exAlert 1700000002000 firing, exAlert 1700000003000 resolved]))) =
       [exAlert 1700000000000 firing, exAlert 1700000001000 resolved,
        exAlert 1700000002000 firing, exAlert 1700000003000 resolved]
   \<and> responseData (snd (dedup_onmessage nowRate nowGc emptyDedupState
         (dedupMsg [exAlert 1700000000000 firing, exAlert 1700000001000 resolved,
                    exAlert 1700000002000 firing, exAlert 1700000003000 resolved,
                    exAlert 1700000004000 firing]))) =
       [exAlert 1700000000000 firing, exAlert 1700000001000 resolved,
        exAlert 1700000002000 firing, exAlert 1700000003000 resolved]"
proof -
  have gen: "fst (snd (updateDedupState st a ttl)) = True
    \<and> flapCounts (fst (updateDedupState st a ttl)) (generateDedupKey a) =
        (if lastToggle st (generateDedupKey a) \<notin> {None, Some (status a)}
         then Some (get_or0 (flapCounts st) (generateDedupKey a) + 1)
         else flapCounts st (generateDedupKey a))
    \<and> snd (processBatch st ttl (a # rest)) =
        (if get_or0 (flapCounts (fst (updateDedupState st a ttl))) (generateDedupKey a) > 3
         then [] else [a]) @ snd (processBatch (fst (updateDedupState st a ttl)) ttl rest)"
    if dup: "isDuplicate st a ttl"
  proof -
    have d: "fst (snd (updateDedupState st a ttl)) = True"
      by (simp add: updateDedupState_dup[OF dup])
    have f: "flapCounts (fst (updateDedupState st a ttl)) (generateDedupKey a) =
        (if lastToggle st (generateDedupKey a) \<notin> {None, Some (status a)}
         then Some (get_or0 (flapCounts st) (generateDedupKey a) + 1)
         else flapCounts st (generateDedupKey a))"
      by (simp add: updateDedupState_dup[OF dup])
    have k: "snd (processBatch st ttl (a # rest)) =
        (if get_or0 (flapCounts (fst (updateDedupState st a ttl))) (generateDedupKey a) > 3
         then [] else [a]) @ snd (processBatch (fst (updateDedupState st a ttl)) ttl rest)"
      unfolding processBatch_Cons d keepAlert_dup by simp
    from d f k show ?thesis by blast
  qed
  have four: "snd (processBatch emptyDedupState 120000
         [exAlert 1700000000000 firing, exAlert 1700000001000 resolved,
          exAlert 1700000002000 firing, exAlert 1700000003000 resolved]) =
       [exAlert 1700000000000 firing, exAlert 1700000001000 resolved,
        exAlert 1700000002000 firing, exAlert 1700000003000 resolved]"
    by (simp add: updateDedupState_def exAlert_key exAlert_sel emptyDedupState_def
          get_or0_def keepAlert_def Let_def)
  have five: "snd (processBatch emptyDedupState 120000
         [exAlert 1700000000000 firing, exAlert 1700000001000 resolved,
          exAlert 1700000002000 firing, exAlert 1700000003000 resolved,
          exAlert 1700000004000 firing]) =
       [exAlert 1700000000000 firing, exAlert 1700000001000 resolved,
        exAlert 1700000002000 firing, exAlert 1700000003000 resolved]"
    by (simp add: updateDedupState_def exAlert_key exAlert_sel emptyDedupState_def
          get_or0_def keepAlert_def Let_def)
  have rl: "applyRateLimiting nowRate
        [exAlert 1700000000000 firing, exAlert 1700000001000 resolved,
         exAlert 1700000002000 firing, exAlert 1700000003000 resolved] =
       [exAlert 1700000000000 firing, exAlert 1700000001000 resolved,
        exAlert 1700000002000 firing, exAlert 1700000003000 resolved]"
    by (simp add: applyRateLimiting_def exAlert_entityKey exAlert_sel maxAlertsPerMinute_def)
  show ?thesis
    using gen by (simp add: dedupMsg_def dedup_onmessage_data four five rl del: processBatch.simps(2))
qed

theorem flap_count_and_drop_rule_witness:
  "isDuplicate flappedState (exAlert 1700000005000 resolved) 120000
   \<and> flapCounts (fst (updateDedupState flappedState (exAlert 1700000005000 resolved) 120000))
        ''cpu_high|high|checkout|checkout'' = Some 5
   \<and> snd (processBatch flappedState 120000 [exAlert 1700000005000 resolved]) = []"
proof -
  have dup: "isDuplicate flappedState (exAlert 1700000005000 resolved) 120000"
    by (simp add: isDuplicate_def exAlert_key exAlert_sel flappedState_def get_or0_def)
  have lt: "lastToggle flappedState ''cpu_high|high|checkout|checkout'' = Some firing"
    and fc: "flapCounts flappedState ''cpu_high|high|checkout|checkout'' = Some 4"
    by (simp_all add: flappedState_def)
  show ?thesis
    using dup flap_count_and_drop_rule[of flappedState "exAlert 1700000005000 resolved" 120000 "[]" 0 0]
    by (simp add: exAlert_key exAlert_sel lt fc get_or0_def del: processBatch.simps(2))
qed

text \<open>
  The scenario of claim C4 as the claim states it: the fourth alert is not dropped.
\<close>

theorem four_toggles_not_dropped_counterexample:
  "responseData (snd (dedup_onmessage 1700000003500 1700000003500 emptyDedupState
         (dedupMsg [exAlert 1700000000000 firing, exAlert 1700000001000 resolved,
                    exAlert 1700000002000 firing, exAlert 1700000003000 resolved]))) \<noteq>
       [exAlert 1700000000000 firing, exAlert 1700000001000 resolved, exAlert 1700000002000 firing]
   \<and> exAlert 1700000003000 resolved \<in> set (responseData (snd (dedup_onmessage 1700000003500 1700000003500 emptyDedupState
         (dedupMsg [exAlert 1700000000000 firing, exAlert 1700000001000 resolved,
                    exAlert 1700000002000 firing, exAlert 1700000003000 resolved]))))"
proof -
  have four: "snd (processBatch emptyDedupState 120000
         [exAlert 1700000000000 firing, exAlert 1700000001000 resolved,
          exAlert 1700000002000 firing, exAlert 1700000003000 resolved]) =
       [exAlert 1700000000000 firing, exAlert 1700000001000 resolved,
        exAlert 1700000002000 firing, exAlert 1700000003000 resolved]"
    by (simp add: updateDedupState_def exAlert_key exAlert_sel emptyDedupState_def
          get_or0_def keepAlert_def Let_def)
  have rl: "applyRateLimiting 1700000003500
        [exAlert 1700000000000 firing, exAlert 1700000001000 resolved,
         exAlert 1700000002000 firing, exAlert 1700000003000 resolved] =
       [exAlert 1700000000000 firing, exAlert 1700000001000 resolved,
        exAlert 1700000002000 firing, exAlert 1700000003000 resolved]"
    by (simp add: applyRateLimiting_def exAlert_entityKey exAlert_sel maxAlertsPerMinute_def)
  show ?thesis
    by (simp add: dedupMsg_def dedup_onmessage_data four rl del: processBatch.simps(2))
qed


lemma generateDedupKey_ts [simp]: "generateDedupKey (a\<lparr>ts := t\<rparr>) = generateDedupKey a"
  by (simp add: generateDedupKey_def generateFingerprint_def entityKey_def)

lemma engineDedupKey_ts [simp]: "engineDedupKey (a\<lparr>ts := t\<rparr>) = engineDedupKey a"
  by (simp add: engineDedupKey_def)

lemma entityKey_ts [simp]: "entityKey (a\<lparr>ts := t\<rparr>) = entityKey a"
  by (simp add: entityKey_def)

lemma deduplicateAlerts_twice:
  assumes "d < ttl"
  shows "length (deduplicateAlerts ttl [a, a\<lparr>ts := ts a + d\<rparr>]) \<le> 1"
  using assms by (simp add: deduplicateAlerts_def Let_def get_or0_def)

lemma applyRateLimiting_pair:
  assumes "entityKey a = entityKey b" "ts a \<le> ts b"
  shows "applyRateLimiting now [a, b] = [a, b]"
proof -
  have "rateLimitEntity now 0 [a, b] = [a, b]"
    by (rule rateLimitEntity_short) (simp add: maxAlertsPerMinute_def)
  then show ?thesis
    using assms by (simp add: applyRateLimiting_def del: rateLimitEntity.simps)
qed

lemma updateDedupState_isDuplicate:
  "fst (snd (updateDedupState st a ttl)) = isDuplicate st a ttl"
  by (cases "isDuplicate st a ttl") (simp_all add: updateDedupState_new updateDedupState_dup)

lemma updateDedupState_lastToggle:
  "lastToggle (fst (updateDedupState st a ttl)) (generateDedupKey a) = Some (status a)"
  by (cases "isDuplicate st a ttl") (simp_all add: updateDedupState_new updateDedupState_dup)

lemma updateDedupState_same_status:
  "lastToggle st (generateDedupKey a) = Some (status a) \<Longrightarrow>
     flapCounts (fst (updateDedupState st a ttl)) = flapCounts st"
  by (cases "isDuplicate st a ttl") (simp_all add: updateDedupState_new updateDedupState_dup)

lemma processBatch_twice:
  "snd (processBatch st ttl [a, a\<lparr>ts := ts a + d\<rparr>]) =
     (if isDuplicate st a ttl
         \<and> get_or0 (flapCounts (fst (updateDedupState st a ttl))) (generateDedupKey a) > 3
      then [] else [a]) @
     (if isDuplicate (fst (updateDedupState st a ttl)) (a\<lparr>ts := ts a + d\<rparr>) ttl
         \<and> get_or0 (flapCounts (fst (updateDedupState st a ttl))) (generateDedupKey a) > 3
      then [] else [a\<lparr>ts := ts a + d\<rparr>])"
proof -
  let ?a' = "a\<lparr>ts := ts a + d\<rparr>"
  define st1 where "st1 = fst (updateDedupState st a ttl)"
  define st2 where "st2 = fst (updateDedupState st1 ?a' ttl)"
  obtain c1 where u1: "updateDedupState st a ttl = (st1, isDuplicate st a ttl, c1)"
    using updateDedupState_isDuplicate[of st a ttl]
    by (cases "updateDedupState st a ttl") (simp add: st1_def)
  obtain c2 where u2: "updateDedupState st1 ?a' ttl = (st2, isDuplicate st1 ?a' ttl, c2)"
    using updateDedupState_isDuplicate[of st1 ?a' ttl]
    by (cases "updateDedupState st1 ?a' ttl") (simp add: st2_def)
  have "lastToggle st1 (generateDedupKey ?a') = Some (status ?a')"
    using updateDedupState_lastToggle[of st a ttl] by (simp add: st1_def)
  then have fl: "flapCounts st2 = flapCounts st1"
    unfolding st2_def by (rule updateDedupState_same_status)
  show ?thesis
    unfolding st1_def[symmetric]
    by (simp add: u1 u2 keepAlert_def fl)
qed

text \<open>
  Claim C2 on the code. The per-alert pass never leaves an alert out for being a repeat:
  of an alert fed twice, each arrival is pushed on \<open>processedAlerts\<close> unless it is
  classified as a duplicate while the flap count of its key is above 3; the second
  arrival, of the same status, adds no flap. So whenever the key carries at most 3 flaps
  after the first arrival, both arrivals are in the response. In particular, when the
  first arrival is new and the second comes less than \<open>ttlMs\<close> later, the second is
  classified as a duplicate and counted (count 2, flap counts unchanged) and still passed.
  The engine's batch-local \<open>deduplicateAlerts\<close> passes at most one of the two.
\<close>

theorem same_alert_twice_passes_both:
  "snd (processBatch st ttl [a, a\<lparr>ts := ts a + d\<rparr>]) =
     (if isDuplicate st a ttl
         \<and> get_or0 (flapCounts (fst (updateDedupState st a ttl))) (generateDedupKey a) > 3
      then [] else [a]) @
     (if isDuplicate (fst (updateDedupState st a ttl)) (a\<lparr>ts := ts a + d\<rparr>) ttl
         \<and> get_or0 (flapCounts (fst (updateDedupState st a ttl))) (generateDedupKey a) > 3
      then [] else [a\<lparr>ts := ts a + d\<rparr>])
   \<and> (0 \<le> d \<and> get_or0 (flapCounts (fst (updateDedupState st a ttl))) (generateDedupKey a) \<le> 3 \<longrightarrow>
        responseData (snd (dedup_onmessage nowRate nowGc st
          \<lparr>msg_type = ''dedup'', msg_batch = [a, a\<lparr>ts := ts a + d\<rparr>], msg_ttlMs = ttl\<rparr>)) =
        [a, a\<lparr>ts := ts a + d\<rparr>])
   \<and> (\<not> isDuplicate st a ttl \<and> 0 \<le> d \<and> d < ttl \<longrightarrow>
        isDuplicate (fst (updateDedupState st a ttl)) (a\<lparr>ts := ts a + d\<rparr>) ttl
        \<and> counts (fst (processBatch st ttl [a, a\<lparr>ts := ts a + d\<rparr>])) (generateDedupKey a) = Some 2
        \<and> flapCounts (fst (processBatch st ttl [a, a\<lparr>ts := ts a + d\<rparr>])) = flapCounts st
        \<and> snd (processBatch st ttl [a, a\<lparr>ts := ts a + d\<rparr>]) =
            (if get_or0 (flapCounts st) (generateDedupKey a) > 3 then [a]
             else [a, a\<lparr>ts := ts a + d\<rparr>]))
   \<and> (d < ttl \<longrightarrow> length (deduplicateAlerts ttl [a, a\<lparr>ts := ts a + d\<rparr>]) \<le> 1)"
proof -
  let ?k = "generateDedupKey a"
  let ?a' = "a\<lparr>ts := ts a + d\<rparr>"
  define st1 where "st1 = fst (updateDedupState st a ttl)"
  note tw = processBatch_twice[of st ttl a d, folded st1_def]
  have resp: "responseData (snd (dedup_onmessage nowRate nowGc st
          \<lparr>msg_type = ''dedup'', msg_batch = [a, ?a'], msg_ttlMs = ttl\<rparr>)) = [a, ?a']"
    if d: "0 \<le> d" and fl: "get_or0 (flapCounts st1) ?k \<le> 3"
  proof -
    have pb: "snd (processBatch st ttl [a, ?a']) = [a, ?a']"
      unfolding tw using fl by simp
    have rl: "applyRateLimiting nowRate [a, ?a'] = [a, ?a']"
      by (rule applyRateLimiting_pair) (use d in simp_all)
    show ?thesis unfolding dedup_onmessage_data pb rl ..
  qed
  have new: "isDuplicate st1 ?a' ttl
        \<and> counts (fst (processBatch st ttl [a, ?a'])) ?k = Some 2
        \<and> flapCounts (fst (processBatch st ttl [a, ?a'])) = flapCounts st
        \<and> snd (processBatch st ttl [a, ?a']) =
            (if get_or0 (flapCounts st) ?k > 3 then [a] else [a, ?a'])"
    if new: "\<not> isDuplicate st a ttl" and d: "0 \<le> d" "d < ttl"
  proof -
    have u1: "updateDedupState st a ttl = (st1, False, 1)"
      using updateDedupState_new[OF new] by (simp add: st1_def)
    have s1: "lastSeen st1 ?k = Some (ts a)" "counts st1 ?k = Some 1"
      "lastToggle st1 ?k = Some (status a)" "flapCounts st1 = flapCounts st"
      using updateDedupState_new[OF new] by (simp_all add: st1_def)
    have dup: "isDuplicate st1 ?a' ttl"
      using d by (simp add: isDuplicate_def get_or0_def s1)
    define st2 where "st2 = fst (updateDedupState st1 ?a' ttl)"
    have u2: "updateDedupState st1 ?a' ttl = (st2, True, 2)"
      using updateDedupState_dup[OF dup] by (simp add: st2_def get_or0_def s1)
    have s2: "counts st2 ?k = Some 2" "flapCounts st2 = flapCounts st"
      using updateDedupState_dup[OF dup] by (simp_all add: st2_def get_or0_def s1)
    have pb: "fst (processBatch st ttl [a, ?a']) = st2"
      by (simp add: u1 u2)
    show ?thesis
      unfolding pb tw using new dup s1(4) s2 by simp
  qed
  show ?thesis
    using resp new deduplicateAlerts_twice[of d ttl a] tw
    unfolding st1_def by (intro conjI impI) simp_all
qed

text \<open>
  The scenario of claim C2: two identical alerts at \<open>t\<close> and \<open>t + 30000\<close> with a time to live
  of 120000 on a fresh worker. Both are in the response, with count 2 and no flap.
\<close>

theorem same_alert_twice_passes_both_witness:
  "\<not> isDuplicate emptyDedupState (exAlert 1700000000000 firing) 120000
   \<and> get_or0 (flapCounts (fst (updateDedupState emptyDedupState (exAlert 1700000000000 firing) 120000)))
        (generateDedupKey (exAlert 1700000000000 firing)) \<le> 3
   \<and> snd (processBatch emptyDedupState 120000
         [exAlert 1700000000000 firing, exAlert 1700000030000 firing]) =
       [exAlert 1700000000000 firing, exAlert 1700000030000 firing]
   \<and> responseData (snd (dedup_onmessage 1700000031000 1700000031000 emptyDedupState
         (dedupMsg [exAlert 1700000000000 firing, exAlert 1700000030000 firing]))) =
       [exAlert 1700000000000 firing, exAlert 1700000030000 firing]
   \<and> isDuplicate (fst (updateDedupState emptyDedupState (exAlert 1700000000000 firing) 120000))
        (exAlert 1700000030000 firing) 120000
   \<and> counts (fst (processBatch emptyDedupState 120000
         [exAlert 1700000000000 firing, exAlert 1700000030000 firing]))
        ''cpu_high|high|checkout|checkout'' = Some 2
   \<and> get_or0 (flapCounts (fst (processBatch emptyDedupState 120000
         [exAlert 1700000000000 firing, exAlert 1700000030000 firing])))
        ''cpu_high|high|checkout|checkout'' = 0
   \<and> length (deduplicateAlerts 120000
         [exAlert 1700000000000 firing, exAlert 1700000030000 firing]) \<le> 1"
proof -
  have new: "\<not> isDuplicate emptyDedupState (exAlert 1700000000000 firing) 120000"
    by (simp add: isDuplicate_def exAlert_key exAlert_sel emptyDedupState_def get_or0_def)
  have fl: "get_or0 (flapCounts (fst (updateDedupState emptyDedupState (exAlert 1700000000000 firing) 120000)))
        (generateDedupKey (exAlert 1700000000000 firing)) \<le> 3"
  proof -
    have "flapCounts (fst (updateDedupState emptyDedupState (exAlert 1700000000000 firing) 120000)) =
        flapCounts emptyDedupState"
      by (simp add: updateDedupState_new[OF new])
    then show ?thesis by (simp add: emptyDedupState_def get_or0_def)
  qed
  have fl0: "\<not> 3 < get_or0 (flapCounts emptyDedupState) (generateDedupKey (exAlert 1700000000000 firing))"
    by (simp add: emptyDedupState_def get_or0_def)
  have a': "(exAlert 1700000000000 firing)\<lparr>ts := ts (exAlert 1700000000000 firing) + 30000\<rparr> =
            exAlert 1700000030000 firing"
    by (simp add: exAlert_def)
  have e: "flapCounts emptyDedupState = Map.empty"
    by (simp add: emptyDedupState_def)
  note T = same_alert_twice_passes_both[of emptyDedupState 120000 "exAlert 1700000000000 firing"
      30000 1700000031000 1700000031000, unfolded a']
  from T new fl fl0 show ?thesis
    unfolding exAlert_key dedupMsg_def
    by (simp add: e get_or0_def del: processBatch.simps(2))
qed

section \<open>Rate limiter: grouping and order\<close>

lemma groupPush_keys:
  "map fst (groupPush g k a) = pushNew (map fst g) k"
  by (induction g k a rule: groupPush.induct) (auto simp: pushNew_def)

lemma groupPush_map_of:
  "map_of (groupPush g k a) =
     (map_of g)(k \<mapsto> (case map_of g k of None \<Rightarrow> [] | Some xs \<Rightarrow> xs) @ [a])"
  by (induction g k a rule: groupPush.induct) (auto simp: fun_eq_iff)

lemma groupByEntity_keys:
  "map fst (groupByEntity g as) = foldl pushNew (map fst g) (map entityKey as)"
  by (induction g as rule: groupByEntity.induct) (simp_all add: groupPush_keys)

lemma groupByEntity_map_of:
  "map_of (groupByEntity g as) k =
     (if k \<in> fst ` set g \<union> entityKey ` set as
      then Some ((case map_of g k of None \<Rightarrow> [] | Some xs \<Rightarrow> xs) @ filter (\<lambda>a. entityKey a = k) as)
      else None)"
proof (induction g as rule: groupByEntity.induct)
  case (1 g)
  then show ?case by (auto simp: map_of_eq_None_iff split: option.splits)
next
  case (2 g a as)
  have keys: "fst ` set (groupPush g (entityKey a) a) = insert (entityKey a) (fst ` set g)"
    using groupPush_keys[of g "entityKey a" a, THEN arg_cong, of set]
    by (auto simp: pushNew_def split: if_splits)
  show ?case
    unfolding groupByEntity.simps 2 keys groupPush_map_of
    by (auto split: option.splits)
qed

lemma set_foldl_pushNew: "set (foldl pushNew ks xs) = set ks \<union> set xs"
  by (induction xs arbitrary: ks) (auto simp: pushNew_def)

lemma distinct_foldl_pushNew: "distinct ks \<Longrightarrow> distinct (foldl pushNew ks xs)"
  by (induction xs arbitrary: ks) (auto simp: pushNew_def)

lemma set_firstKeys [simp]: "set (firstKeys xs) = set xs"
  by (simp add: firstKeys_def set_foldl_pushNew)

lemma distinct_firstKeys [simp]: "distinct (firstKeys xs)"
  by (simp add: firstKeys_def distinct_foldl_pushNew)

lemma alist_by_keys:
  assumes "distinct (map fst g)"
  shows "g = map (\<lambda>k. (k, the (map_of g k))) (map fst g)"
proof -
  have "(fst p, the (map_of g (fst p))) = p" if "p \<in> set g" for p
  proof -
    have "map_of g (fst p) = Some (snd p)"
      using assms that by (intro map_of_is_SomeI) simp_all
    then show ?thesis by simp
  qed
  then have "map (\<lambda>p. (fst p, the (map_of g (fst p)))) g = g"
    by (intro map_idI)
  then show ?thesis by (simp add: comp_def)
qed

lemma groupByEntity_eq:
  "groupByEntity [] alerts =
     map (\<lambda>k. (k, filter (\<lambda>a. entityKey a = k) alerts)) (firstKeys (map entityKey alerts))"
proof -
  let ?g = "groupByEntity [] alerts"
  have k: "map fst ?g = firstKeys (map entityKey alerts)"
    by (simp add: groupByEntity_keys firstKeys_def)
  then have "distinct (map fst ?g)" by simp
  from alist_by_keys[OF this] have "?g = map (\<lambda>k. (k, the (map_of ?g k))) (firstKeys (map entityKey alerts))"
    unfolding k .
  also have "\<dots> = map (\<lambda>k. (k, filter (\<lambda>a. entityKey a = k) alerts)) (firstKeys (map entityKey alerts))"
    by (intro map_cong) (auto simp: groupByEntity_map_of)
  finally show ?thesis .
qed

lemma applyRateLimiting_eq:
  "applyRateLimiting now alerts =
     concat (map (\<lambda>k. rateLimitEntity now 0 (sort_key ts (filter (\<lambda>a. entityKey a = k) alerts)))
               (firstKeys (map entityKey alerts)))"
  by (simp add: applyRateLimiting_def groupByEntity_eq comp_def)

lemma rateLimitEntity_subseq: "subseq (rateLimitEntity now n xs) xs"
  by (induction xs arbitrary: n) auto

lemma rateLimitEntity_set: "set (rateLimitEntity now n xs) \<subseteq> set xs"
  by (induction xs arbitrary: n) auto

lemma rateLimitEntity_sorted:
  "sorted (map ts xs) \<Longrightarrow> sorted (map ts (rateLimitEntity now n xs))"
proof (induction xs arbitrary: n)
  case Nil
  then show ?case by simp
next
  case (Cons a xs)
  then show ?case using rateLimitEntity_set[of now _ xs] by (auto simp: subset_iff)
qed

lemma filter_concat_distinct:
  assumes "distinct ks" and "\<And>k' a. a \<in> set (f k') \<Longrightarrow> key a = k'"
  shows "filter (\<lambda>a. key a = k) (concat (map f ks)) = (if k \<in> set ks then f k else [])"
  using assms(1)
proof (induction ks)
  case Nil
  then show ?case by simp
next
  case (Cons k' ks)
  have same: "filter (\<lambda>a. key a = k) (f k) = f k"
    using assms(2) by (simp add: filter_id_conv)
  have other: "filter (\<lambda>a. key a = k) (f k') = []" if "k' \<noteq> k"
    using assms(2) that by (auto simp: filter_empty_conv)
  show ?case
  proof (cases "k' = k")
    case True
    with Cons show ?thesis by (simp add: same)
  next
    case False
    with Cons show ?thesis by (simp add: other)
  qed
qed


lemma processBatch_subseq: "subseq (snd (processBatch st ttl xs)) xs"
proof (induction xs arbitrary: st)
  case Nil
  then show ?case by simp
next
  case (Cons a xs)
  from Cons[of "fst (updateDedupState st a ttl)"] show ?case
    unfolding processBatch_Cons by (auto intro: list_emb_Cons)
qed

lemma otherAlert_key: "generateDedupKey (otherAlert t) = ''pod_restart|medium|payments|payments''"
  unfolding generateDedupKey_def generateFingerprint_def otherAlert_entityKey
  by (simp add: sanitize_char_def toLowerCase_char_def otherAlert_def)

text \<open>
  Claim C7, as amended. The per-alert pass keeps the order of the batch, but the rate
  limiter regroups: its output lists the entity keys in order of first appearance and,
  for each key, the retained alerts of that entity one after the other. Within one
  entity the retained alerts are a subsequence of the entity's alerts sorted by
  timestamp, so they are in ascending timestamp order. The relative order of alerts of
  different entities is not kept.
\<close>

theorem rate_limiter_groups_by_entity:
  "subseq (snd (processBatch st ttl b)) b
   \<and> applyRateLimiting now alerts =
       concat (map (\<lambda>k. rateLimitEntity now 0 (sort_key ts (filter (\<lambda>a. entityKey a = k) alerts)))
                 (firstKeys (map entityKey alerts)))
   \<and> filter (\<lambda>a. entityKey a = k) (applyRateLimiting now alerts) =
       rateLimitEntity now 0 (sort_key ts (filter (\<lambda>a. entityKey a = k) alerts))
   \<and> subseq (filter (\<lambda>a. entityKey a = k) (applyRateLimiting now alerts))
        (sort_key ts (filter (\<lambda>a. entityKey a = k) alerts))
   \<and> sorted (map ts (filter (\<lambda>a. entityKey a = k) (applyRateLimiting now alerts)))"
proof -
  let ?f = "\<lambda>k. rateLimitEntity now 0 (sort_key ts (filter (\<lambda>a. entityKey a = k) alerts))"
  have mem: "entityKey a = k'" if "a \<in> set (?f k')" for k' a
    using that rateLimitEntity_set[of now 0 "sort_key ts (filter (\<lambda>a. entityKey a = k') alerts)"]
    by auto
  have "filter (\<lambda>a. entityKey a = k) (concat (map ?f (firstKeys (map entityKey alerts)))) =
        (if k \<in> set (firstKeys (map entityKey alerts)) then ?f k else [])"
    by (rule filter_concat_distinct[where key = entityKey, OF distinct_firstKeys mem])
  moreover have "?f k = []" if "k \<notin> set (firstKeys (map entityKey alerts))"
  proof -
    have "filter (\<lambda>a. entityKey a = k) alerts = []"
      using that by (auto simp: filter_empty_conv)
    then show ?thesis by simp
  qed
  ultimately have per: "filter (\<lambda>a. entityKey a = k) (applyRateLimiting now alerts) = ?f k"
    unfolding applyRateLimiting_eq by (cases "k \<in> set (firstKeys (map entityKey alerts))") simp_all
  have srt: "sorted (map ts (?f k))"
    by (rule rateLimitEntity_sorted) simp
  have sub: "subseq (?f k) (sort_key ts (filter (\<lambda>a. entityKey a = k) alerts))"
    by (rule rateLimitEntity_subseq)
  note eq = applyRateLimiting_eq[of now alerts]
  note pb = processBatch_subseq[of st ttl b]
  from pb eq per sub srt show ?thesis
    by (simp only: simp_thms)
qed


text \<open>
  Claim C7 as stated fails on a batch that interleaves two entities: the response is
  neither in batch order nor in timestamp order.
\<close>

theorem rate_limiter_reorders_counterexample:
  "responseData (snd (dedup_onmessage 1700000002500 1700000002500 emptyDedupState
      (dedupMsg [exAlert 1700000000000 firing, otherAlert 1700000001000,
                 exAlert 1700000002000 firing]))) =
     [exAlert 1700000000000 firing, exAlert 1700000002000 firing, otherAlert 1700000001000]
   \<and> \<not> subseq
        (responseData (snd (dedup_onmessage 1700000002500 1700000002500 emptyDedupState
           (dedupMsg [exAlert 1700000000000 firing, otherAlert 1700000001000,
                      exAlert 1700000002000 firing]))))
        [exAlert 1700000000000 firing, otherAlert 1700000001000, exAlert 1700000002000 firing]
   \<and> \<not> sorted (map ts
        (responseData (snd (dedup_onmessage 1700000002500 1700000002500 emptyDedupState
           (dedupMsg [exAlert 1700000000000 firing, otherAlert 1700000001000,
                      exAlert 1700000002000 firing])))))"
proof -
  have ne: "exAlert t s \<noteq> otherAlert t'" for t s t'
    by (simp add: exAlert_def otherAlert_def)
  have three: "snd (processBatch emptyDedupState 120000
         [exAlert 1700000000000 firing, otherAlert 1700000001000, exAlert 1700000002000 firing]) =
       [exAlert 1700000000000 firing, otherAlert 1700000001000, exAlert 1700000002000 firing]"
    by (simp add: updateDedupState_def exAlert_key otherAlert_key exAlert_sel otherAlert_sel
          emptyDedupState_def get_or0_def keepAlert_def Let_def)
  have rl: "applyRateLimiting 1700000002500
        [exAlert 1700000000000 firing, otherAlert 1700000001000, exAlert 1700000002000 firing] =
       [exAlert 1700000000000 firing, exAlert 1700000002000 firing, otherAlert 1700000001000]"
    by (simp add: applyRateLimiting_def exAlert_entityKey otherAlert_entityKey exAlert_sel
          otherAlert_sel maxAlertsPerMinute_def)
  have out: "responseData (snd (dedup_onmessage 1700000002500 1700000002500 emptyDedupState
      (dedupMsg [exAlert 1700000000000 firing, otherAlert 1700000001000,
                 exAlert 1700000002000 firing]))) =
     [exAlert 1700000000000 firing, exAlert 1700000002000 firing, otherAlert 1700000001000]"
    by (simp add: dedupMsg_def dedup_onmessage_data three rl del: processBatch.simps(2))
  show ?thesis
    unfolding out using ne ne[symmetric] by (simp add: exAlert_sel otherAlert_sel)
qed

section \<open>Episode clusterer: the gap-break scenario\<close>

lemma mapSet_same: "map_of m k = Some v \<Longrightarrow> mapSet m k v = m"
  by (induction m k v rule: mapSet.induct) (auto split: if_splits)

lemma clusterStep_gap_exceeded:
  assumes "map_of (episodes st) (generateEpisodeKey a) = Some e" and "ts a - ep_end e > gapMs"
  shows "clusterStep gapMs st a = st"
  using assms by (simp add: clusterStep_def getOrCreateEpisode_def updateEpisode_def mapSet_same)

lemma evAlert_sel:
  "ts (evAlert t i) = t" "source (evAlert t i) = ''datadog''" "vendor_event_id (evAlert t i) = i"
  "severity (evAlert t i) = ''high''"
  by (simp_all add: evAlert_def exAlert_def)

lemma evAlert_keys:
  "entityKey (evAlert t i) = ''checkout''" "episodeFingerprint (evAlert t i) = ''cpu_high''"
  "generateEpisodeKey (evAlert t i) = ''checkout|cpu_high''"
  by (simp_all add: evAlert_def exAlert_def entityKey_def episodeFingerprint_def generateEpisodeKey_def)

lemma burst_three:
  "applyBurstClustering [evAlert 1700000000000 ''e1'', evAlert 1700000060000 ''e2'',
       evAlert 1700000300000 ''e3''] 120000 =
     [evAlert 1700000000000 ''e1'', evAlert 1700000060000 ''e2'', evAlert 1700000300000 ''e3'']"
  by (simp add: applyBurstClustering_def evAlert_sel)

lemma two_steps:
  "clusterStep 120000 (clusterStep 120000 emptyClusterState (evAlert 1700000000000 ''e1''))
       (evAlert 1700000060000 ''e2'') =
     \<lparr> episodes = [(''checkout|cpu_high'', gapEpisode)],
       entityEpisodes = [(''checkout'', [''checkout|cpu_high''])] \<rparr>"
  by (simp add: clusterStep_def getOrCreateEpisode_def updateEpisode_def newEpisode_def
        evAlert_keys evAlert_sel emptyClusterState_def gapEpisode_def Let_def)

text \<open>
  Claim C1 on the code. Three alerts on one key at \<open>t\<close>, \<open>t + 60000\<close> and \<open>t + 300000\<close>
  with \<open>gapMs = 120000\<close>: the worker ends with one episode at the key, from \<open>t\<close> to
  \<open>t + 60000\<close> with count 3 (the first alert is counted when the episode is created and
  again by \<open>updateEpisode\<close>); the third alert exceeds the gap, \<open>updateEpisode\<close> returns
  \<open>false\<close>, and no fresh episode replaces the stored one.
\<close>

theorem gap_break_opens_no_episode:
  "cluster_onmessage 1700000301000 1700000301000 emptyClusterState
      [evAlert 1700000000000 ''e1'', evAlert 1700000060000 ''e2'', evAlert 1700000300000 ''e3'']
      120000 900000 =
     (\<lparr> episodes = [(''checkout|cpu_high'', gapEpisode)],
        entityEpisodes = [(''checkout'', [''checkout|cpu_high''])] \<rparr>,
      [gapEpisode],
      [evAlert 1700000000000 ''e1'', evAlert 1700000060000 ''e2'', evAlert 1700000300000 ''e3''])
   \<and> (ep_start gapEpisode, ep_end gapEpisode, ep_count gapEpisode) =
       (1700000000000, 1700000060000, 3)"
proof -
  let ?st2 = "\<lparr> episodes = [(''checkout|cpu_high'', gapEpisode)],
       entityEpisodes = [(''checkout'', [''checkout|cpu_high''])] \<rparr>"
  have third: "clusterStep 120000 ?st2 (evAlert 1700000300000 ''e3'') = ?st2"
    by (rule clusterStep_gap_exceeded[where e = gapEpisode])
       (simp_all add: evAlert_keys evAlert_sel gapEpisode_def)
  have loop: "clusterLoop 120000 emptyClusterState
      [evAlert 1700000000000 ''e1'', evAlert 1700000060000 ''e2'', evAlert 1700000300000 ''e3''] =
     (?st2, [evAlert 1700000000000 ''e1'', evAlert 1700000060000 ''e2'', evAlert 1700000300000 ''e3''])"
    by (simp add: two_steps third)
  have clean: "cleanupOldEpisodes 1700000301000 900000 ?st2 = ?st2"
    by (simp add: cleanupOldEpisodes_def gapEpisode_def)
  have win: "getEpisodesInWindow 1700000301000 900000 ?st2 = [gapEpisode]"
    by (simp add: getEpisodesInWindow_def gapEpisode_def)
  show ?thesis
    unfolding cluster_onmessage_def burst_three loop
    by (simp add: clean win) (simp add: gapEpisode_def)
qed

section \<open>Situation builder: joining by source mix\<close>

lemma find_uf_root:
  "parent x = Some x \<or> parent x = None \<Longrightarrow> find_uf parent x = Some (parent(x \<mapsto> x), x)"
  by (subst find_uf.simps) simp

lemma find_uf_link:
  "parent x = Some y \<Longrightarrow> y \<noteq> x \<Longrightarrow>
     find_uf parent x =
       Option.bind (find_uf parent y) (\<lambda>(parent', rt). Some (parent'(x \<mapsto> rt), rt))"
  by (subst find_uf.simps) simp

lemma jaccard_commute:
  assumes "distinct a" "distinct b"
  shows "jaccard a b = jaccard b a"
proof -
  have "length (filter (\<lambda>x. x \<in> set b) a) = card (set a \<inter> set b)"
    using assms(1) by (metis distinct_card distinct_filter inf_set_def set_filter Collect_conj_eq Collect_mem_eq)
  moreover have "length (filter (\<lambda>x. x \<in> set a) b) = card (set b \<inter> set a)"
    using assms(2) by (metis distinct_card distinct_filter inf_set_def set_filter Collect_conj_eq Collect_mem_eq)
  ultimately have "length (filter (\<lambda>x. x \<in> set b) a) = length (filter (\<lambda>x. x \<in> set a) b)"
    by (simp add: Int_commute)
  then show ?thesis by (auto simp: jaccard_def Let_def)
qed

lemma joinable_commute: "joinable (i, e1) (j, e2) = joinable (j, e2) (i, e1)"
  using jaccard_commute[of "firstKeys (vendorMix e1)" "firstKeys (vendorMix e2)"]
  by (auto simp: joinable_def Let_def)

lemma joinable_index: "i \<noteq> j \<Longrightarrow> i' \<noteq> j' \<Longrightarrow> joinable (i, e1) (j, e2) = joinable (i', e1) (j', e2)"
  by (simp add: joinable_def)

lemma indexPairs_2: "indexPairs (Suc (Suc 0)) = [(0, Suc 0)]"
  by (simp add: indexPairs_def)

lemma find_uf_self: "parent x = Some x \<Longrightarrow> find_uf parent x = Some (parent, x)"
  by (simp add: find_uf_root fun_upd_idem)

lemma find_uf_child:
  assumes "parent x = Some y" "y \<noteq> x" "parent y = Some y"
  shows "find_uf parent x = Some (parent, y)"
  using assms by (simp add: find_uf_link find_uf_self fun_upd_idem)

lemma unite_roots:
  assumes "parent a = Some a" "parent b = Some b" "a \<noteq> b"
  shows "unite parent a b = Some (parent(a \<mapsto> b))"
  using assms by (simp add: unite_def find_uf_self)

lemma build_two:
  assumes le: "ep_start s0 \<le> ep_start s1"
  shows "buildSituations [s0, s1] alerts =
     Some (if joinable (0, s0) (1, s1) then mkSituation [s0, s1] alerts
           else mkSituation [s0] alerts @ mkSituation [s1] alerts)"
proof -
  define p0 :: "nat \<rightharpoonup> nat" where "p0 = (\<lambda>i. if i < Suc (Suc 0) then Some i else None)"
  have p0: "p0 0 = Some 0" "p0 (Suc 0) = Some (Suc 0)" by (simp_all add: p0_def)
  have srt: "sort_key ep_start [s0, s1] = [s0, s1]" using le by simp
  have upt2: "[0..<Suc (Suc 0)] = [0, Suc 0]" by simp
  show ?thesis
  proof (cases "joinable (0, s0) (1, s1)")
    case True
    have j: "joinLoop [s0, s1] [(0, Suc 0)] p0 = Some (p0(0 \<mapsto> Suc 0))"
      using True by (simp add: unite_roots p0)
    have b: "bucketLoop [0, Suc 0] (p0(0 \<mapsto> Suc 0)) [] = Some [(Suc 0, [0, Suc 0])]"
      by (simp add: find_uf_child[where y = "Suc 0"] find_uf_self p0)
    show ?thesis
      using True unfolding buildSituations_def srt Let_def
      by (simp add: indexPairs_2 upt2 p0_def[symmetric] j b
            del: mkSituation.simps joinLoop.simps bucketLoop.simps upt_Suc)
  next
    case False
    have j: "joinLoop [s0, s1] [(0, Suc 0)] p0 = Some p0"
      using False by simp
    have b: "bucketLoop [0, Suc 0] p0 [] = Some [(0, [0]), (Suc 0, [Suc 0])]"
      by (simp add: find_uf_self p0)
    show ?thesis
      using False unfolding buildSituations_def srt Let_def
      by (simp add: indexPairs_2 upt2 p0_def[symmetric] j b
            del: mkSituation.simps joinLoop.simps bucketLoop.simps upt_Suc)
  qed
qed


lemma buildSituations_sorted:
  "buildSituations xs alerts = buildSituations (sort_key ep_start xs) alerts"
proof -
  have "sort_key ep_start (sort_key ep_start xs) = sort_key ep_start xs"
    by (rule sort_key_id_if_sorted) simp
  moreover have "(sort_key ep_start xs = []) = (xs = [])"
    by (metis length_sort length_0_conv)
  ultimately show ?thesis by (simp add: buildSituations_def)
qed

lemma joinable_by_mix:
  assumes "i \<noteq> j" "\<not> (ep_end e1 < ep_start e2 \<or> ep_end e2 < ep_start e1)"
    "ep_entity_key e1 \<noteq> ep_entity_key e2" "ep_fingerprint e1 \<noteq> ep_fingerprint e2"
  shows "joinable (i, e1) (j, e2) \<longleftrightarrow>
         jaccard (firstKeys (vendorMix e1)) (firstKeys (vendorMix e2)) > 0.3"
  using assms by (simp add: joinable_def Let_def)

lemma mkSituation_pair:
  "map sit_episodes (mkSituation [s0, s1] alerts) = [[s0, s1]]"
  "ep_entity_key s0 \<noteq> ep_entity_key s1 \<Longrightarrow> map blast_entities (mkSituation [s0, s1] alerts) = [2]"
  by (simp_all add: Let_def firstKeys_def pushNew_def)

lemma rootOf_root: "rootOf p x r \<Longrightarrow> p r = Some r"
  by (induction rule: rootOf.induct) auto

lemma rootOf_fun: "rootOf p x r \<Longrightarrow> rootOf p x r' \<Longrightarrow> r = r'"
proof (induction arbitrary: r' rule: rootOf.induct)
  case (self x)
  from self(2) self(1) show ?case by (cases rule: rootOf.cases) auto
next
  case (link x y r)
  from link(5) link(1,2) have "rootOf p y r'" by (cases rule: rootOf.cases) auto
  then show ?case by (rule link.IH)
qed

lemma rootOf_compress:
  assumes x: "rootOf p x r" and z: "rootOf p z rz"
  shows "rootOf (p(x \<mapsto> r)) z rz"
  using z
proof (induction rule: rootOf.induct)
  case (self z)
  show ?case
  proof (cases "z = x")
    case True
    with self have "rootOf p x x" by (auto intro: rootOf.self)
    with x have "r = x" by (rule rootOf_fun)
    with True show ?thesis by (auto intro: rootOf.self)
  next
    case False
    with self show ?thesis by (auto intro: rootOf.self)
  qed
next
  case (link z y rz)
  show ?case
  proof (cases "z = x")
    case True
    from link(1,2,3) have "rootOf p z rz" by (rule rootOf.link)
    with True x have rz: "rz = r" using rootOf_fun by blast
    from x have rr: "p r = Some r" by (rule rootOf_root)
    with link(1,2) True have ne: "r \<noteq> x" by auto
    then have "rootOf (p(x \<mapsto> r)) r r" using rr by (auto intro: rootOf.self)
    with ne have "rootOf (p(x \<mapsto> r)) x r"
      by (intro rootOf.link[of _ x r]) auto
    then show ?thesis unfolding True rz .
  next
    case False
    with link(1) have "(p(x \<mapsto> r)) z = Some y" by simp
    then show ?thesis using link(2) link.IH by (rule rootOf.link)
  qed
qed

lemma find_uf_rootOf:
  assumes "rootOf p x r"
  shows "\<exists>p'. find_uf p x = Some (p', r) \<and> (\<forall>z rz. rootOf p z rz \<longrightarrow> rootOf p' z rz)"
  using assms
proof (induction rule: rootOf.induct)
  case (self x)
  then have "find_uf p x = Some (p, x)" by (rule find_uf_self)
  then show ?case by blast
next
  case (link x y r)
  then obtain p1 where p1: "find_uf p y = Some (p1, r)"
    and pres: "\<And>z rz. rootOf p z rz \<Longrightarrow> rootOf p1 z rz"
    by blast
  from link(1,2) have f: "find_uf p x = Some (p1(x \<mapsto> r), r)"
    by (simp add: find_uf_link p1)
  from link(1,2,3) have "rootOf p x r" by (rule rootOf.link)
  then have x1: "rootOf p1 x r" by (rule pres)
  have "rootOf (p1(x \<mapsto> r)) z rz" if "rootOf p z rz" for z rz
    using x1 pres[OF that] by (rule rootOf_compress)
  with f show ?case by blast
qed

lemma rootOf_join:
  assumes ra: "p ra = Some ra" and rb: "p rb = Some rb" and ne: "ra \<noteq> rb"
    and z: "rootOf p z rz"
  shows "rootOf (p(ra \<mapsto> rb)) z (if rz = ra then rb else rz)"
  using z
proof (induction rule: rootOf.induct)
  case (self z)
  show ?case
  proof (cases "z = ra")
    case True
    have "rootOf (p(ra \<mapsto> rb)) rb rb" using rb ne by (auto intro: rootOf.self)
    then have "rootOf (p(ra \<mapsto> rb)) ra rb"
      using ne by (intro rootOf.link[of _ ra rb]) auto
    then show ?thesis unfolding True by (simp only: refl if_True)
  next
    case False
    with self show ?thesis by (auto intro: rootOf.self)
  qed
next
  case (link z y rz)
  from link(1,2) ra have "z \<noteq> ra" by auto
  with link(1) have "(p(ra \<mapsto> rb)) z = Some y" by simp
  then show ?case using link(2) link.IH by (rule rootOf.link)
qed

lemma unite_rootOf:
  assumes a: "rootOf p a ra" and b: "rootOf p b rb"
  shows "\<exists>p'. unite p a b = Some p'
          \<and> (\<forall>z rz. rootOf p z rz \<longrightarrow> rootOf p' z (if rz = ra then rb else rz))"
proof -
  from find_uf_rootOf[OF a] obtain p1 where p1: "find_uf p a = Some (p1, ra)"
    and pres1: "\<And>z rz. rootOf p z rz \<Longrightarrow> rootOf p1 z rz"
    by blast
  from find_uf_rootOf[OF pres1[OF b]] obtain p2 where p2: "find_uf p1 b = Some (p2, rb)"
    and pres2: "\<And>z rz. rootOf p1 z rz \<Longrightarrow> rootOf p2 z rz"
    by blast
  have u: "unite p a b = Some (if ra \<noteq> rb then p2(ra \<mapsto> rb) else p2)"
    by (simp add: unite_def p1 p2)
  show ?thesis
  proof (cases "ra = rb")
    case True
    have "rootOf p2 z (if rz = ra then rb else rz)" if "rootOf p z rz" for z rz
      using pres2[OF pres1[OF that]] True by simp
    with u True show ?thesis by simp
  next
    case False
    have ra2: "p2 ra = Some ra" using pres2[OF pres1[OF a]] by (rule rootOf_root)
    have rb2: "p2 rb = Some rb" using pres2[OF pres1[OF b]] by (rule rootOf_root)
    have "rootOf (p2(ra \<mapsto> rb)) z (if rz = ra then rb else rz)" if "rootOf p z rz" for z rz
      using ra2 rb2 False pres2[OF pres1[OF that]] by (rule rootOf_join)
    with u False show ?thesis by simp
  qed
qed

lemma rtrancl_add_edge:
  "(i, j) \<in> (S \<union> {(a, b), (b, a)})\<^sup>* \<longleftrightarrow>
     (i, j) \<in> S\<^sup>* \<or> ((i, a) \<in> S\<^sup>* \<and> (b, j) \<in> S\<^sup>*) \<or> ((i, b) \<in> S\<^sup>* \<and> (a, j) \<in> S\<^sup>*)"
proof
  assume "(i, j) \<in> (S \<union> {(a, b), (b, a)})\<^sup>*"
  then show "(i, j) \<in> S\<^sup>* \<or> ((i, a) \<in> S\<^sup>* \<and> (b, j) \<in> S\<^sup>*) \<or> ((i, b) \<in> S\<^sup>* \<and> (a, j) \<in> S\<^sup>*)"
  proof (induction rule: rtrancl_induct)
    case base
    then show ?case by simp
  next
    case (step y z)
    from step(2) consider "(y, z) \<in> S" | "y = a" "z = b" | "y = b" "z = a" by auto
    then show ?case
    proof cases
      case 1
      with step.IH show ?thesis by (meson rtrancl.rtrancl_into_rtrancl)
    next
      case 2
      with step.IH show ?thesis by blast
    next
      case 3
      with step.IH show ?thesis by blast
    qed
  qed
next
  let ?S' = "S \<union> {(a, b), (b, a)}"
  have sub: "S\<^sup>* \<subseteq> ?S'\<^sup>*" by (rule rtrancl_mono) auto
  have ab: "(a, b) \<in> ?S'\<^sup>*" "(b, a) \<in> ?S'\<^sup>*" by auto
  assume "(i, j) \<in> S\<^sup>* \<or> ((i, a) \<in> S\<^sup>* \<and> (b, j) \<in> S\<^sup>*) \<or> ((i, b) \<in> S\<^sup>* \<and> (a, j) \<in> S\<^sup>*)"
  then consider "(i, j) \<in> S\<^sup>*" | "(i, a) \<in> S\<^sup>*" "(b, j) \<in> S\<^sup>*" | "(i, b) \<in> S\<^sup>*" "(a, j) \<in> S\<^sup>*"
    by blast
  then show "(i, j) \<in> ?S'\<^sup>*"
  proof cases
    case 1
    with sub show ?thesis by blast
  next
    case 2
    with sub have "(i, a) \<in> ?S'\<^sup>*" "(b, j) \<in> ?S'\<^sup>*" by blast+
    with ab(1) show ?thesis by (meson rtrancl_trans)
  next
    case 3
    with sub have "(i, b) \<in> ?S'\<^sup>*" "(a, j) \<in> ?S'\<^sup>*" by blast+
    with ab(2) show ?thesis by (meson rtrancl_trans)
  qed
qed


lemma joinLoop_components:
  assumes "\<forall>i<n. rootOf p i (f i)"
    and "\<forall>q\<in>set ps. fst q < n \<and> snd q < n"
    and "\<forall>i<n. \<forall>j<n. f i = f j \<longleftrightarrow> (i, j) \<in> (E \<union> E\<inverse>)\<^sup>*"
  shows "\<exists>p' f'. joinLoop eps ps p = Some p' \<and> (\<forall>i<n. rootOf p' i (f' i))
           \<and> (\<forall>i<n. \<forall>j<n. f' i = f' j \<longleftrightarrow>
                 (i, j) \<in> ((E \<union> {q \<in> set ps. joinable (fst q, eps ! fst q) (snd q, eps ! snd q)})
                          \<union> (E \<union> {q \<in> set ps. joinable (fst q, eps ! fst q) (snd q, eps ! snd q)})\<inverse>)\<^sup>*)"
  using assms
proof (induction ps arbitrary: p f E)
  case Nil
  then show ?case by auto
next
  case (Cons q ps)
  obtain a b where q: "q = (a, b)" by (cases q)
  from Cons.prems(2) q have ab: "a < n" "b < n" and rest: "\<forall>q\<in>set ps. fst q < n \<and> snd q < n"
    by auto
  let ?J = "\<lambda>ps. {q \<in> set ps. joinable (fst q, eps ! fst q) (snd q, eps ! snd q)}"
  show ?case
  proof (cases "joinable (a, eps ! a) (b, eps ! b)")
    case False
    then have J: "?J (q # ps) = ?J ps" using q by auto
    from False have step: "joinLoop eps (q # ps) p = joinLoop eps ps p" by (simp add: q)
    from Cons.IH[OF Cons.prems(1) rest Cons.prems(3)] show ?thesis
      unfolding step J .
  next
    case True
    then have J: "E \<union> ?J (q # ps) = insert (a, b) E \<union> ?J ps" using q by auto
    from Cons.prems(1) ab have ra: "rootOf p a (f a)" and rb: "rootOf p b (f b)" by simp_all
    from unite_rootOf[OF ra rb] obtain p1 where p1: "unite p a b = Some p1"
      and pres: "\<And>z rz. rootOf p z rz \<Longrightarrow> rootOf p1 z (if rz = f a then f b else rz)"
      by blast
    define f1 where "f1 = (\<lambda>i. if f i = f a then f b else f i)"
    have r1: "\<forall>i<n. rootOf p1 i (f1 i)"
      using Cons.prems(1) pres by (simp add: f1_def)
    have E1: "insert (a, b) E \<union> (insert (a, b) E)\<inverse> = (E \<union> E\<inverse>) \<union> {(a, b), (b, a)}"
      by auto
    have inv1: "\<forall>i<n. \<forall>j<n. f1 i = f1 j \<longleftrightarrow> (i, j) \<in> (insert (a, b) E \<union> (insert (a, b) E)\<inverse>)\<^sup>*"
    proof (intro allI impI)
      fix i j assume ij: "i < n" "j < n"
      have old: "\<And>x y. x < n \<Longrightarrow> y < n \<Longrightarrow> ((x, y) \<in> (E \<union> E\<inverse>)\<^sup>*) = (f x = f y)"
        using Cons.prems(3) by simp
      have "(f1 i = f1 j) = (f i = f j \<or> (f i = f a \<and> f b = f j) \<or> (f i = f b \<and> f a = f j))"
        by (auto simp: f1_def)
      then show "f1 i = f1 j \<longleftrightarrow> (i, j) \<in> (insert (a, b) E \<union> (insert (a, b) E)\<inverse>)\<^sup>*"
        unfolding E1 rtrancl_add_edge using ij ab by (simp add: old)
    qed
    from True have step: "joinLoop eps (q # ps) p = joinLoop eps ps p1" by (simp add: q p1)
    from Cons.IH[OF r1 rest inv1] show ?thesis
      unfolding step J .
  qed
qed

lemma bucketLoop_fold:
  assumes "\<forall>i\<in>set is. rootOf p i (f i)"
  shows "bucketLoop is p buckets = Some (foldl (\<lambda>b i. bucketPush b (f i) i) buckets is)"
  using assms
proof (induction "is" arbitrary: p buckets)
  case Nil
  then show ?case by simp
next
  case (Cons i "is")
  from Cons.prems have "rootOf p i (f i)" by simp
  from find_uf_rootOf[OF this] obtain p1 where p1: "find_uf p i = Some (p1, f i)"
    and pres: "\<And>z rz. rootOf p z rz \<Longrightarrow> rootOf p1 z rz"
    by blast
  have "\<forall>j\<in>set is. rootOf p1 j (f j)" using Cons.prems pres by simp
  from Cons.IH[OF this] show ?case by (simp add: p1)
qed

lemma bucketPush_keys: "map fst (bucketPush g r i) = pushNew (map fst g) r"
  by (induction g r i rule: bucketPush.induct) (auto simp: pushNew_def)

lemma bucketPush_map_of:
  "map_of (bucketPush g r i) =
     (map_of g)(r \<mapsto> (case map_of g r of None \<Rightarrow> [] | Some xs \<Rightarrow> xs) @ [i])"
  by (induction g r i rule: bucketPush.induct) (auto simp: fun_eq_iff)

lemma buckets_keys:
  "map fst (foldl (\<lambda>b i. bucketPush b (f i) i) g is) = foldl pushNew (map fst g) (map f is)"
  by (induction "is" arbitrary: g) (simp_all add: bucketPush_keys)

lemma buckets_map_of:
  "map_of (foldl (\<lambda>b i. bucketPush b (f i) i) g is) k =
     (if k \<in> fst ` set g \<union> f ` set is
      then Some ((case map_of g k of None \<Rightarrow> [] | Some xs \<Rightarrow> xs) @ filter (\<lambda>i. f i = k) is)
      else None)"
proof (induction "is" arbitrary: g)
  case Nil
  then show ?case by (auto simp: map_of_eq_None_iff split: option.splits)
next
  case (Cons i "is")
  have keys: "fst ` set (bucketPush g (f i) i) = insert (f i) (fst ` set g)"
    using bucketPush_keys[of g "f i" i, THEN arg_cong, of set]
    by (auto simp: pushNew_def split: if_splits)
  show ?case
    unfolding foldl_Cons Cons keys bucketPush_map_of
    by (auto split: option.splits)
qed

lemma buckets_eq:
  "foldl (\<lambda>b i. bucketPush b (f i) i) [] is =
     map (\<lambda>r. (r, filter (\<lambda>i. f i = r) is)) (firstKeys (map f is))"
proof -
  let ?g = "foldl (\<lambda>b i. bucketPush b (f i) i) [] is"
  have k: "map fst ?g = firstKeys (map f is)"
    by (simp add: buckets_keys firstKeys_def)
  then have "distinct (map fst ?g)" by simp
  from alist_by_keys[OF this] have "?g = map (\<lambda>k. (k, the (map_of ?g k))) (firstKeys (map f is))"
    unfolding k .
  also have "\<dots> = map (\<lambda>r. (r, filter (\<lambda>i. f i = r) is)) (firstKeys (map f is))"
    by (intro map_cong) (auto simp: buckets_map_of)
  finally show ?thesis .
qed

lemma firstKeys_upt:
  "firstKeys (map f [0..<n]) = map f (filter (\<lambda>i. \<forall>j<i. f j \<noteq> f i) [0..<n])"
proof (induction n)
  case 0
  then show ?case by (simp add: firstKeys_def)
next
  case (Suc n)
  have "firstKeys (map f [0..<Suc n]) = pushNew (firstKeys (map f [0..<n])) (f n)"
    by (simp add: firstKeys_def)
  moreover have "f n \<in> set (firstKeys (map f [0..<n])) \<longleftrightarrow> \<not> (\<forall>j<n. f j \<noteq> f n)"
  proof
    assume "f n \<in> set (firstKeys (map f [0..<n]))"
    then have "f n \<in> f ` {0..<n}" by simp
    then obtain j where "j \<in> {0..<n}" "f n = f j" by (rule imageE)
    then have "j < n" "f j = f n" by simp_all
    then show "\<not> (\<forall>j<n. f j \<noteq> f n)" by blast
  next
    assume "\<not> (\<forall>j<n. f j \<noteq> f n)"
    then obtain j where j: "j < n" "f j = f n" by blast
    then have "j \<in> {0..<n}" by simp
    then have "f j \<in> f ` {0..<n}" by (rule imageI)
    with j(2) show "f n \<in> set (firstKeys (map f [0..<n]))" by simp
  qed
  ultimately show ?case using Suc by (simp add: pushNew_def)
qed

lemma components_eq:
  assumes "\<forall>i<length eps. \<forall>j<length eps. f i = f j \<longleftrightarrow> chained eps i j"
  shows "map (\<lambda>r. filter (\<lambda>i. f i = r) [0..<length eps]) (firstKeys (map f [0..<length eps])) =
           components eps"
proof -
  let ?n = "length eps"
  have reps: "filter (\<lambda>i. \<forall>j<i. f j \<noteq> f i) [0..<?n] = filter (\<lambda>i. \<forall>j<i. \<not> chained eps j i) [0..<?n]"
    by (rule filter_cong) (use assms in auto)
  have cls: "filter (\<lambda>j. f j = f i) [0..<?n] = filter (chained eps i) [0..<?n]" if i: "i < ?n" for i
  proof (rule filter_cong[OF refl])
    fix j assume "j \<in> set [0..<?n]"
    then have "j < ?n" by simp
    with assms i have "(f i = f j) = chained eps i j" by blast
    then show "(f j = f i) = chained eps i j" by (simp add: eq_commute)
  qed
  have "map (\<lambda>r. filter (\<lambda>i. f i = r) [0..<?n]) (firstKeys (map f [0..<?n])) =
        map (\<lambda>i. filter (\<lambda>j. f j = f i) [0..<?n]) (filter (\<lambda>i. \<forall>j<i. f j \<noteq> f i) [0..<?n])"
    unfolding firstKeys_upt by (simp add: comp_def)
  also have "\<dots> = map (\<lambda>i. filter (chained eps i) [0..<?n]) (filter (\<lambda>i. \<forall>j<i. f j \<noteq> f i) [0..<?n])"
    by (rule map_cong) (auto simp: cls)
  finally show ?thesis unfolding reps components_def .
qed

lemma set_indexPairs: "set (indexPairs n) = {(i, j). i < j \<and> j < n}"
  by (fastforce simp: indexPairs_def)

lemma joinable_irrefl: "\<not> joinable (i, e1) (i, e2)"
  by (simp add: joinable_def)

lemma linked_pairs:
  "{q \<in> set (indexPairs (length eps)). joinable (fst q, eps ! fst q) (snd q, eps ! snd q)}
   \<union> {q \<in> set (indexPairs (length eps)). joinable (fst q, eps ! fst q) (snd q, eps ! snd q)}\<inverse>
   = linked eps"
proof (intro set_eqI iffI)
  fix x :: "nat \<times> nat"
  obtain i j where x: "x = (i, j)" by (cases x)
  {
    assume "x \<in> linked eps"
    then have l: "i < length eps" "j < length eps" "joinable (i, eps ! i) (j, eps ! j)"
      by (simp_all add: linked_def x)
    then have "i \<noteq> j" using joinable_irrefl by auto
    then consider "i < j" | "j < i" by linarith
    then show "x \<in> {q \<in> set (indexPairs (length eps)). joinable (fst q, eps ! fst q) (snd q, eps ! snd q)}
        \<union> {q \<in> set (indexPairs (length eps)). joinable (fst q, eps ! fst q) (snd q, eps ! snd q)}\<inverse>"
    proof cases
      case 1
      with l show ?thesis by (simp add: x set_indexPairs)
    next
      case 2
      with l joinable_commute[of i "eps ! i" j "eps ! j"] show ?thesis
        by (simp add: x set_indexPairs)
    qed
  }
  {
    assume "x \<in> {q \<in> set (indexPairs (length eps)). joinable (fst q, eps ! fst q) (snd q, eps ! snd q)}
        \<union> {q \<in> set (indexPairs (length eps)). joinable (fst q, eps ! fst q) (snd q, eps ! snd q)}\<inverse>"
    then show "x \<in> linked eps"
      using joinable_commute[of i "eps ! i" j "eps ! j"]
      by (auto simp: x set_indexPairs linked_def)
  }
qed

lemma buildSituations_components:
  "buildSituations eps0 alerts =
     Some (concat (map (\<lambda>g. mkSituation (map ((!) (sort_key ep_start eps0)) g) alerts)
                       (components (sort_key ep_start eps0))))"
proof (cases "eps0 = []")
  case True
  then show ?thesis by (simp add: buildSituations_def components_def)
next
  case False
  define eps where "eps = sort_key ep_start eps0"
  define n where "n = length eps"
  define p0 :: "nat \<rightharpoonup> nat" where "p0 = (\<lambda>i. if i < n then Some i else None)"
  have r0: "\<forall>i<n. rootOf p0 i ((\<lambda>i. i) i)" by (auto simp: p0_def intro: rootOf.self)
  have pairs: "\<forall>q\<in>set (indexPairs n). fst q < n \<and> snd q < n"
    by (auto simp: set_indexPairs)
  have inv0: "\<forall>i<n. \<forall>j<n. (\<lambda>i. i) i = (\<lambda>i. i) j \<longleftrightarrow> (i, j) \<in> ({} \<union> {}\<inverse>)\<^sup>*" by simp
  from joinLoop_components[OF r0 pairs inv0, of eps] obtain p' f' where
    jl: "joinLoop eps (indexPairs n) p0 = Some p'" and r': "\<forall>i<n. rootOf p' i (f' i)"
    and inv': "\<forall>i<n. \<forall>j<n. f' i = f' j \<longleftrightarrow>
                 (i, j) \<in> (({} \<union> {q \<in> set (indexPairs n). joinable (fst q, eps ! fst q) (snd q, eps ! snd q)})
                          \<union> ({} \<union> {q \<in> set (indexPairs n). joinable (fst q, eps ! fst q) (snd q, eps ! snd q)})\<inverse>)\<^sup>*"
    by blast
  have ch: "\<forall>i<length eps. \<forall>j<length eps. f' i = f' j \<longleftrightarrow> chained eps i j"
    using inv' linked_pairs[of eps] by (simp add: n_def chained_def)
  have "\<forall>i\<in>set [0..<n]. rootOf p' i (f' i)" using r' by simp
  then have bl: "bucketLoop [0..<n] p' [] =
      Some (map (\<lambda>r. (r, filter (\<lambda>i. f' i = r) [0..<n])) (firstKeys (map f' [0..<n])))"
    by (simp add: bucketLoop_fold buckets_eq)
  have grp: "map snd (map (\<lambda>r. (r, filter (\<lambda>i. f' i = r) [0..<n])) (firstKeys (map f' [0..<n]))) =
      components eps"
    using components_eq[OF ch] by (simp add: comp_def n_def)
  have cat: "concat (map (\<lambda>(rt, group). mkSituation (map ((!) eps) group) alerts) bs) =
      concat (map (\<lambda>g. mkSituation (map ((!) eps) g) alerts) (map snd bs))" for bs :: "(nat \<times> nat list) list"
    by (simp add: comp_def split_def)
  have "buildSituations eps0 alerts =
      Option.bind (joinLoop eps (indexPairs n) p0) (\<lambda>parent.
        Option.bind (bucketLoop [0..<n] parent []) (\<lambda>buckets.
          Some (concat (map (\<lambda>(rt, group). mkSituation (map ((!) eps) group) alerts) buckets))))"
    using False by (simp add: buildSituations_def eps_def n_def p0_def Let_def)
  also have "\<dots> = Some (concat (map (\<lambda>g. mkSituation (map ((!) eps) g) alerts) (components eps)))"
    by (simp add: jl bl cat grp del: map_map)
  finally show ?thesis unfolding eps_def .
qed


lemma jaccard_index: "jaccard (firstKeys xs) (firstKeys ys) = jaccardIndex (set xs) (set ys)"
proof -
  let ?a = "firstKeys xs" and ?b = "firstKeys ys"
  have la: "length ?a = card (set xs)" using distinct_card[of ?a] by simp
  have lb: "length ?b = card (set ys)" using distinct_card[of ?b] by simp
  have li: "length (filter (\<lambda>x. x \<in> set ?b) ?a) = card (set xs \<inter> set ys)"
  proof -
    have "set (filter (\<lambda>x. x \<in> set ?b) ?a) = set xs \<inter> set ys" by auto
    moreover have "distinct (filter (\<lambda>x. x \<in> set ?b) ?a)" by simp
    ultimately show ?thesis using distinct_card by metis
  qed
  have un: "int (length ?a) + int (length ?b) - int (card (set xs \<inter> set ys)) =
      int (card (set xs \<union> set ys))"
    using card_Un_Int[of "set xs" "set ys"] la lb by simp
  have ea: "?a = [] \<longleftrightarrow> set xs = {}" by (metis set_empty set_firstKeys)
  have eb: "?b = [] \<longleftrightarrow> set ys = {}" by (metis set_empty set_firstKeys)
  show ?thesis
  proof (cases "set xs = {} \<or> set ys = {}")
    case True
    then show ?thesis by (auto simp: jaccard_def jaccardIndex_def ea eb)
  next
    case False
    then show ?thesis
      unfolding jaccard_def jaccardIndex_def Let_def li un by (simp add: ea eb)
  qed
qed

lemma linked_sym: "sym (linked eps)"
  using joinable_commute by (auto simp: sym_def linked_def)

lemma chained_refl: "chained eps i i"
  by (simp add: chained_def)

lemma chained_sym: "chained eps i j \<Longrightarrow> chained eps j i"
  unfolding chained_def using sym_rtrancl[OF linked_sym, of eps] by (auto dest: symD)

lemma chained_trans: "chained eps i j \<Longrightarrow> chained eps j k \<Longrightarrow> chained eps i k"
  unfolding chained_def by (rule rtrancl_trans)

lemma chained_direct:
  "a < length eps \<Longrightarrow> b < length eps \<Longrightarrow> joinable (a, eps ! a) (b, eps ! b) \<Longrightarrow> chained eps a b"
  by (auto simp: chained_def linked_def)

lemma components_member:
  "g \<in> set (components eps) \<longleftrightarrow>
     (\<exists>m<length eps. (\<forall>k<m. \<not> chained eps k m) \<and> g = filter (chained eps m) [0..<length eps])"
  by (auto simp: components_def image_iff)

lemma components_nonempty: "g \<in> set (components eps) \<Longrightarrow> g \<noteq> []"
proof -
  assume "g \<in> set (components eps)"
  then obtain m where m: "m < length eps" "g = filter (chained eps m) [0..<length eps]"
    unfolding components_member by blast
  then have "m \<in> set g" by (simp add: chained_refl)
  then show ?thesis by auto
qed

lemma share_component:
  assumes i: "i < length eps" and j: "j < length eps"
  shows "(\<exists>g\<in>set (components eps). i \<in> set g \<and> j \<in> set g) \<longleftrightarrow> chained eps i j"
proof
  assume "\<exists>g\<in>set (components eps). i \<in> set g \<and> j \<in> set g"
  then obtain g where g: "g \<in> set (components eps)" "i \<in> set g" "j \<in> set g" by blast
  from g(1) obtain m where "g = filter (chained eps m) [0..<length eps]"
    unfolding components_member by blast
  with g(2,3) have "chained eps m i" "chained eps m j" by simp_all
  then show "chained eps i j" using chained_sym chained_trans by blast
next
  assume c: "chained eps i j"
  define m where "m = (LEAST k. chained eps k i)"
  have mi: "chained eps m i" unfolding m_def by (rule LeastI[of _ i]) (rule chained_refl)
  have "m \<le> i" unfolding m_def by (rule Least_le) (rule chained_refl)
  with i have mn: "m < length eps" by simp
  have least: "\<not> chained eps k m" if "k < m" for k
  proof
    assume "chained eps k m"
    then have "chained eps k i" using mi by (rule chained_trans)
    then have "m \<le> k" unfolding m_def by (rule Least_le)
    with that show False by simp
  qed
  let ?g = "filter (chained eps m) [0..<length eps]"
  have "?g \<in> set (components eps)"
    unfolding components_member using mn least by blast
  moreover have "i \<in> set ?g" using i mi by simp
  moreover have "j \<in> set ?g" using j chained_trans[OF mi c] by simp
  ultimately show "\<exists>g\<in>set (components eps). i \<in> set g \<and> j \<in> set g" by blast
qed

lemma mkSituation_episodes: "g \<noteq> [] \<Longrightarrow> map sit_episodes (mkSituation g alerts) = [g]"
  by (cases g) (simp_all add: Let_def)

lemma situations_episodes:
  "(\<forall>g\<in>set gs. g \<noteq> []) \<Longrightarrow>
     map sit_episodes (concat (map (\<lambda>g. mkSituation (map F g) alerts) gs)) = map (map F) gs"
  by (induction gs) (simp_all add: mkSituation_episodes del: mkSituation.simps)

lemma components_episodes:
  "map sit_episodes (concat (map (\<lambda>g. mkSituation (map ((!) eps) g) alerts) (components eps))) =
     map (map ((!) eps)) (components eps)"
  by (rule situations_episodes) (simp add: components_nonempty)

text \<open>
  Claim C8, as amended. \<open>jaccard\<close> on two source mixes is the Jaccard index of their sets
  (two empty mixes count as 1). For two distinct episodes that overlap in time and differ
  in entity key and in fingerprint, \<open>joinable\<close> holds exactly when that index is above
  0.3, and the builder run on these two episodes alone returns one situation holding both,
  with two entities in its blast radius, exactly in that case. On any list of episodes
  the builder returns the connected components of \<open>joinable\<close>: one situation for each
  class of episodes linked by a chain of pairwise joinable episodes, the classes in order
  of their earliest episode. Two episodes therefore share a situation exactly when such a
  chain links them; a direct join is one such chain, so an index above 0.3 is enough, but
  it is not needed when other episodes link the two.
\<close>

theorem source_mix_join:
  "jaccard (firstKeys xs) (firstKeys ys) = jaccardIndex (set xs) (set ys)
   \<and> (i \<noteq> j \<and> \<not> (ep_end e1 < ep_start e2 \<or> ep_end e2 < ep_start e1)
        \<and> ep_entity_key e1 \<noteq> ep_entity_key e2 \<and> ep_fingerprint e1 \<noteq> ep_fingerprint e2 \<longrightarrow>
        (joinable (i, e1) (j, e2) \<longleftrightarrow>
           jaccardIndex (set (vendorMix e1)) (set (vendorMix e2)) > 0.3)
        \<and> buildSituations [e1, e2] alerts =
            Some (if jaccardIndex (set (vendorMix e1)) (set (vendorMix e2)) > 0.3
                  then mkSituation (sort_key ep_start [e1, e2]) alerts
                  else concat (map (\<lambda>e. mkSituation [e] alerts) (sort_key ep_start [e1, e2])))
        \<and> map sit_episodes (mkSituation (sort_key ep_start [e1, e2]) alerts) =
            [sort_key ep_start [e1, e2]]
        \<and> map blast_entities (mkSituation (sort_key ep_start [e1, e2]) alerts) = [2])
   \<and> buildSituations eps0 alerts =
       Some (concat (map (\<lambda>g. mkSituation (map ((!) (sort_key ep_start eps0)) g) alerts)
                         (components (sort_key ep_start eps0))))
   \<and> map sit_episodes
         (concat (map (\<lambda>g. mkSituation (map ((!) (sort_key ep_start eps0)) g) alerts)
                      (components (sort_key ep_start eps0)))) =
       map (map ((!) (sort_key ep_start eps0))) (components (sort_key ep_start eps0))
   \<and> (a < length eps \<and> b < length eps \<longrightarrow>
        ((\<exists>g\<in>set (components eps). a \<in> set g \<and> b \<in> set g) \<longleftrightarrow> chained eps a b)
        \<and> (joinable (a, eps ! a) (b, eps ! b) \<longrightarrow> chained eps a b))"
proof -
  let ?J = "jaccardIndex (set (vendorMix e1)) (set (vendorMix e2)) > 0.3"
  have two: "(joinable (i, e1) (j, e2) \<longleftrightarrow> ?J)
        \<and> buildSituations [e1, e2] alerts =
            Some (if ?J then mkSituation (sort_key ep_start [e1, e2]) alerts
                  else concat (map (\<lambda>e. mkSituation [e] alerts) (sort_key ep_start [e1, e2])))
        \<and> map sit_episodes (mkSituation (sort_key ep_start [e1, e2]) alerts) =
            [sort_key ep_start [e1, e2]]
        \<and> map blast_entities (mkSituation (sort_key ep_start [e1, e2]) alerts) = [2]"
    if ne: "i \<noteq> j" and overlap: "\<not> (ep_end e1 < ep_start e2 \<or> ep_end e2 < ep_start e1)"
      and ent: "ep_entity_key e1 \<noteq> ep_entity_key e2" and fp: "ep_fingerprint e1 \<noteq> ep_fingerprint e2"
  proof -
    have j: "joinable (i, e1) (j, e2) \<longleftrightarrow> ?J"
      using joinable_by_mix[OF ne overlap ent fp] unfolding jaccard_index .
    have j01: "joinable (0, e1) (1, e2) \<longleftrightarrow> ?J"
      using joinable_by_mix[OF _ overlap ent fp, of 0 1] unfolding jaccard_index by simp
    show ?thesis
    proof (cases "ep_start e1 \<le> ep_start e2")
      case True
      then have srt: "sort_key ep_start [e1, e2] = [e1, e2]" by simp
      show ?thesis
        unfolding srt using j j01 build_two[OF True, of alerts] mkSituation_pair[of e1 e2 alerts] ent
        by (auto simp del: mkSituation.simps)
    next
      case False
      then have le: "ep_start e2 \<le> ep_start e1" by simp
      from False have srt: "sort_key ep_start [e1, e2] = [e2, e1]" by simp
      have bs: "buildSituations [e1, e2] alerts = buildSituations [e2, e1] alerts"
        using buildSituations_sorted[of "[e1, e2]" alerts] unfolding srt .
      have j10: "joinable (0, e2) (1, e1) \<longleftrightarrow> ?J"
        using j01 joinable_commute[of 0 e2 1 e1] joinable_index[of 1 0 0 1 e1 e2] by simp
      show ?thesis
        unfolding srt bs using j j10 build_two[OF le, of alerts] mkSituation_pair[of e2 e1 alerts] ent
        by (auto simp del: mkSituation.simps)
    qed
  qed
  have comp: "((\<exists>g\<in>set (components eps). a \<in> set g \<and> b \<in> set g) \<longleftrightarrow> chained eps a b)
        \<and> (joinable (a, eps ! a) (b, eps ! b) \<longrightarrow> chained eps a b)"
    if "a < length eps \<and> b < length eps"
    using that share_component[of a eps b] chained_direct[of a eps b] by blast
  show ?thesis
    using two comp
    by (intro conjI impI jaccard_index buildSituations_components components_episodes) blast+
qed

lemma link_components: "components [linkA, linkB, linkC] = [[0, 1, 2]]"
proof -
  let ?eps = "[linkA, linkB, linkC]"
  have l02: "(0, Suc (Suc 0)) \<in> linked ?eps"
    by (simp add: linked_def joinable_def linkA_def linkC_def)
  have l21: "(Suc (Suc 0), Suc 0) \<in> linked ?eps"
    by (simp add: linked_def joinable_def linkB_def linkC_def)
  have c02: "chained ?eps 0 (Suc (Suc 0))" using l02 by (auto simp: chained_def)
  have c01: "chained ?eps 0 (Suc 0)"
    using l02 l21 unfolding chained_def by (meson rtrancl.simps)
  have up: "[0..<length ?eps] = [0, Suc 0, Suc (Suc 0)]"
    by (simp add: upt_conv_Cons)
  show ?thesis
    unfolding components_def up
    by (auto simp: chained_refl c01 c02 less_Suc_eq)
qed

text \<open>
  The scenario of claim C8: source mixes \<open>{k8s, datadog}\<close> and \<open>{datadog, logicmonitor}\<close>,
  index \<open>1/3\<close>, one situation with two entities.
\<close>

theorem source_mix_join_witness:
  "(0::nat) \<noteq> 1
   \<and> \<not> (ep_end svcA < ep_start svcB \<or> ep_end svcB < ep_start svcA)
   \<and> ep_entity_key svcA \<noteq> ep_entity_key svcB \<and> ep_fingerprint svcA \<noteq> ep_fingerprint svcB
   \<and> (0::nat) < length [svcA, svcB] \<and> (1::nat) < length [svcA, svcB]
   \<and> jaccardIndex (set (vendorMix svcA)) (set (vendorMix svcB)) = 1 / 3
   \<and> joinable (0, svcA) (1, svcB)
   \<and> chained [svcA, svcB] 0 1
   \<and> (\<exists>g\<in>set (components [svcA, svcB]). 0 \<in> set g \<and> 1 \<in> set g)
   \<and> buildSituations [svcA, svcB] [] = Some (mkSituation [svcA, svcB] [])
   \<and> map sit_episodes (mkSituation [svcA, svcB] []) = [[svcA, svcB]]
   \<and> map blast_entities (mkSituation [svcA, svcB] []) = [2]"
proof -
  have jac: "jaccardIndex (set (vendorMix svcA)) (set (vendorMix svcB)) = 1 / 3"
  proof -
    have "set (vendorMix svcA) \<inter> set (vendorMix svcB) = {''datadog''}"
      by (auto simp: svcA_def svcB_def)
    moreover have "set (vendorMix svcA) \<union> set (vendorMix svcB) = {''k8s'', ''datadog'', ''logicmonitor''}"
      by (auto simp: svcA_def svcB_def)
    moreover have "set (vendorMix svcA) \<noteq> {}" by (simp add: svcA_def)
    ultimately show ?thesis by (simp add: jaccardIndex_def)
  qed
  have srt: "sort_key ep_start [svcA, svcB] = [svcA, svcB]"
    by (simp add: svcA_def svcB_def)
  have h: "(0::nat) \<noteq> 1 \<and> \<not> (ep_end svcA < ep_start svcB \<or> ep_end svcB < ep_start svcA)
    \<and> ep_entity_key svcA \<noteq> ep_entity_key svcB \<and> ep_fingerprint svcA \<noteq> ep_fingerprint svcB"
    by (simp add: svcA_def svcB_def)
  have len: "(0::nat) < length [svcA, svcB] \<and> (1::nat) < length [svcA, svcB]" by simp
  note T = source_mix_join[of "[]" "[]" 0 1 svcA svcB "[]" "[svcA, svcB]" 0 "[svcA, svcB]" 1]
  from T h have j: "joinable (0, svcA) (1, svcB) \<longleftrightarrow>
      jaccardIndex (set (vendorMix svcA)) (set (vendorMix svcB)) > 0.3"
    by blast
  from T h have b: "buildSituations [svcA, svcB] [] =
      Some (if jaccardIndex (set (vendorMix svcA)) (set (vendorMix svcB)) > 0.3
            then mkSituation (sort_key ep_start [svcA, svcB]) []
            else concat (map (\<lambda>e. mkSituation [e] []) (sort_key ep_start [svcA, svcB])))"
    by blast
  from T h have m: "map sit_episodes (mkSituation (sort_key ep_start [svcA, svcB]) []) =
      [sort_key ep_start [svcA, svcB]]"
    "map blast_entities (mkSituation (sort_key ep_start [svcA, svcB]) []) = [2]"
    by blast+
  from T len have c: "(\<exists>g\<in>set (components [svcA, svcB]). 0 \<in> set g \<and> 1 \<in> set g) \<longleftrightarrow>
      chained [svcA, svcB] 0 1"
    "joinable (0, [svcA, svcB] ! 0) (1, [svcA, svcB] ! 1) \<longrightarrow> chained [svcA, svcB] 0 1"
    by blast+
  from j jac have jn: "joinable (0, svcA) (1, svcB)" by simp
  with c(2) have ch: "chained [svcA, svcB] 0 1" by simp
  with c(1) have sh: "\<exists>g\<in>set (components [svcA, svcB]). 0 \<in> set g \<and> 1 \<in> set g" by simp
  show ?thesis
    using h len jac jn ch sh b m unfolding srt
    by (simp del: mkSituation.simps)
qed

text \<open>
  Claim C8 as stated: \<open>linkA\<close> and \<open>linkB\<close> overlap, differ in entity key and fingerprint,
  and their source mixes are disjoint, yet the builder puts them in one situation, since
  \<open>linkC\<close> shares its entity with the first and its fingerprint with the second.
\<close>

theorem source_mix_chain_counterexample:
  "(0::nat) \<noteq> 1
   \<and> \<not> (ep_end linkA < ep_start linkB \<or> ep_end linkB < ep_start linkA)
   \<and> ep_entity_key linkA \<noteq> ep_entity_key linkB \<and> ep_fingerprint linkA \<noteq> ep_fingerprint linkB
   \<and> jaccardIndex (set (vendorMix linkA)) (set (vendorMix linkB)) = 0
   \<and> \<not> joinable (0, linkA) (1, linkB)
   \<and> (\<exists>sits. buildSituations [linkA, linkB, linkC] [] = Some sits
        \<and> map sit_episodes sits = [[linkA, linkB, linkC]])"
proof -
  have h: "(0::nat) \<noteq> 1 \<and> \<not> (ep_end linkA < ep_start linkB \<or> ep_end linkB < ep_start linkA)
    \<and> ep_entity_key linkA \<noteq> ep_entity_key linkB \<and> ep_fingerprint linkA \<noteq> ep_fingerprint linkB"
    by (simp add: linkA_def linkB_def)
  have jac: "jaccardIndex (set (vendorMix linkA)) (set (vendorMix linkB)) = 0"
    by (simp add: jaccardIndex_def linkA_def linkB_def)
  have nj: "\<not> joinable (0, linkA) (1, linkB)"
    using joinable_by_mix[of 0 1 linkA linkB] h jac unfolding jaccard_index by simp
  have srt: "sort_key ep_start [linkA, linkB, linkC] = [linkA, linkB, linkC]"
    by (simp add: linkA_def linkB_def linkC_def)
  have b: "buildSituations [linkA, linkB, linkC] [] = Some (mkSituation [linkA, linkB, linkC] [])"
    unfolding buildSituations_components srt link_components
    by (simp del: mkSituation.simps)
  have "map sit_episodes (mkSituation [linkA, linkB, linkC] []) = [[linkA, linkB, linkC]]"
    by (rule mkSituation_episodes) simp
  with b h jac nj show ?thesis by simp
qed

section \<open>Graph proximity: the bounded breadth-first search\<close>

lemma isDist_unique: "isDist adj s v d \<Longrightarrow> isDist adj s v d' \<Longrightarrow> d = d'"
  unfolding isDist_def by (meson nat_neq_iff)

lemma isDist_0 [simp]: "isDist adj s v 0 \<longleftrightarrow> v = s"
  by (auto simp: isDist_def)

lemma reach_least:
  assumes "(s, v) \<in> edges adj ^^ n"
  shows "\<exists>d\<le>n. isDist adj s v d"
proof -
  let ?d = "LEAST d. (s, v) \<in> edges adj ^^ d"
  have "(s, v) \<in> edges adj ^^ ?d" using assms by (rule LeastI)
  moreover have "(s, v) \<notin> edges adj ^^ m" if "m < ?d" for m
    using not_less_Least[OF that] .
  moreover have "?d \<le> n" using assms by (rule Least_le)
  ultimately show ?thesis unfolding isDist_def by blast
qed

lemma isDist_pred:
  assumes "isDist adj s v (Suc m)"
  shows "\<exists>u. isDist adj s u m \<and> v \<in> set (ownNeighbors adj u)"
proof -
  from assms have r: "(s, v) \<in> edges adj ^^ Suc m" and
    least: "\<And>j. j < Suc m \<Longrightarrow> (s, v) \<notin> edges adj ^^ j"
    by (auto simp: isDist_def)
  from r obtain u where u: "(s, u) \<in> edges adj ^^ m" "(u, v) \<in> edges adj"
    by (auto elim: relpow_Suc_E)
  have "(s, u) \<notin> edges adj ^^ j" if "j < m" for j
  proof
    assume "(s, u) \<in> edges adj ^^ j"
    then have "(s, v) \<in> edges adj ^^ Suc j" using u(2) by (rule relpow_Suc_I)
    with least[of "Suc j"] that show False by simp
  qed
  with u show ?thesis by (auto simp: isDist_def edges_def)
qed

lemma isDist_step:
  assumes "isDist adj s u k" "v \<in> set (ownNeighbors adj u)"
  shows "\<exists>d\<le>Suc k. isDist adj s v d"
proof -
  from assms have "(s, v) \<in> edges adj ^^ Suc k"
    by (auto simp: isDist_def edges_def intro: relpow_Suc_I)
  then show ?thesis by (rule reach_least)
qed

lemma pathLen_isDist: "isDist adj s v d \<Longrightarrow> pathLen adj s v = enat d"
proof -
  assume a: "isDist adj s v d"
  then have "(LEAST d. (s, v) \<in> edges adj ^^ d) = d"
    by (intro Least_equality) (auto simp: isDist_def not_less[symmetric])
  with a show ?thesis by (auto simp: pathLen_def isDist_def)
qed

lemma pathLen_le_iff: "pathLen adj s v \<le> enat n \<longleftrightarrow> (\<exists>d\<le>n. isDist adj s v d)"
proof
  assume l: "pathLen adj s v \<le> enat n"
  then obtain k where k: "(s, v) \<in> edges adj ^^ k"
    by (auto simp: pathLen_def split: if_splits)
  then obtain d where d: "isDist adj s v d" using reach_least by blast
  with l show "\<exists>d\<le>n. isDist adj s v d" by (auto simp: pathLen_isDist)
next
  assume "\<exists>d\<le>n. isDist adj s v d"
  then show "pathLen adj s v \<le> enat n" by (auto simp: pathLen_isDist)
qed

text \<open>Every entity within the limit and no farther than the head of the queue is seen.\<close>

lemma bfsInv_levels:
  assumes inv: "bfsInv adj src dst limit q seen"
  shows "isDist adj src v m \<Longrightarrow> m \<le> limit \<Longrightarrow> (\<forall>d\<in>snd ` set q. m \<le> d) \<Longrightarrow> v \<in> seen"
proof (induction m arbitrary: v)
  case 0
  with inv show ?case by (simp add: bfsInv_def)
next
  case (Suc m)
  from isDist_pred[OF Suc.prems(1)] obtain u where
    u: "isDist adj src u m" "v \<in> set (ownNeighbors adj u)" by blast
  have "u \<in> seen"
    using Suc.IH[OF u(1)] Suc.prems(2,3) by force
  moreover have "u \<notin> fst ` set q"
  proof
    assume "u \<in> fst ` set q"
    then obtain p where p: "p \<in> set q" "fst p = u" by auto
    with inv have "isDist adj src u (snd p)" by (auto simp: bfsInv_def)
    then have "snd p = m" using u(1) by (rule isDist_unique)
    moreover from p Suc.prems(3) have "Suc m \<le> snd p" by auto
    ultimately show False by simp
  qed
  ultimately have "set (ownNeighbors adj u) \<subseteq> seen"
    using inv u(1) Suc.prems(2) unfolding bfsInv_def by (meson Suc_le_lessD)
  with u(2) show ?case by auto
qed

lemma bfsInv_init:
  assumes "src \<noteq> dst"
  shows "bfsInv adj src dst limit [(src, 0)] {src}"
  using assms by (simp add: bfsInv_def)

lemma bfsInv_head_min:
  assumes "bfsInv adj src dst limit ((cur, k) # q) seen"
  shows "\<forall>d\<in>snd ` set ((cur, k) # q). k \<le> d"
  using assms by (auto simp: bfsInv_def)

lemma bfsInv_discover:
  assumes inv: "bfsInv adj src dst limit ((cur, k) # q) seen"
    and lt: "k < limit" and n: "n \<in> set (ownNeighbors adj cur)" "n \<notin> seen"
  shows "isDist adj src n (Suc k)"
proof -
  from inv have cur: "isDist adj src cur k" by (simp add: bfsInv_def)
  from isDist_step[OF cur n(1)] obtain d where d: "d \<le> Suc k" "isDist adj src n d" by blast
  have "d = Suc k"
  proof (rule ccontr)
    assume "d \<noteq> Suc k"
    with d(1) have dk: "d \<le> k" by simp
    have "n \<in> seen"
    proof (rule bfsInv_levels[OF inv d(2)])
      show "d \<le> limit" using dk lt by simp
      show "\<forall>d'\<in>snd ` set ((cur, k) # q). d \<le> d'"
        using bfsInv_head_min[OF inv] dk by auto
    qed
    with n(2) show False by simp
  qed
  with d(2) show ?thesis by simp
qed

lemma bfsInv_skip:
  assumes inv: "bfsInv adj src dst limit ((cur, k) # q) seen" and ge: "limit \<le> k"
  shows "bfsInv adj src dst limit q seen"
proof -
  from inv have cur: "isDist adj src cur k" by (simp add: bfsInv_def)
  have "set (ownNeighbors adj u) \<subseteq> seen"
    if "u \<in> seen" "u \<notin> fst ` set q" "isDist adj src u m" "m < limit" for u m
  proof (cases "u = cur")
    case True
    with that(3) cur have "m = k" using isDist_unique by blast
    with that(4) ge show ?thesis by simp
  next
    case False
    with that(2) have "u \<notin> fst ` set ((cur, k) # q)" by auto
    with inv that show ?thesis unfolding bfsInv_def by blast
  qed
  moreover from inv have "sorted (map snd q)" by (simp add: bfsInv_def)
  moreover from inv have "\<forall>p\<in>set q. fst p \<in> seen \<and> isDist adj src (fst p) (snd p) \<and> snd p \<le> limit"
    by (simp add: bfsInv_def)
  moreover from inv have "\<forall>d\<in>snd ` set q. \<forall>d'\<in>snd ` set q. d' \<le> Suc d"
    unfolding bfsInv_def by (simp add: image_iff)
  moreover from inv have "dst \<notin> seen \<and> src \<in> seen" by (simp add: bfsInv_def)
  ultimately show ?thesis unfolding bfsInv_def by blast
qed

lemma visitNeighbors_Found:
  "visitNeighbors dst d ns q seen = Found r \<Longrightarrow> r = d + 1 \<and> dst \<in> set ns \<and> dst \<notin> seen"
  by (induction dst d ns q seen rule: visitNeighbors.induct) (auto split: if_splits)

lemma visitNeighbors_Continue_dst:
  "visitNeighbors dst d ns q seen = Continue q' seen' \<Longrightarrow> dst \<in> set ns \<Longrightarrow> dst \<in> seen"
  by (induction dst d ns q seen rule: visitNeighbors.induct) (auto split: if_splits)

lemma bfsInv_step:
  assumes inv: "bfsInv adj src dst limit ((cur, k) # q) seen" and lt: "k < limit"
    and vis: "visitNeighbors dst k (ownNeighbors adj cur) q seen = Continue q' seen'"
  shows "bfsInv adj src dst limit q' seen'"
proof -
  from visitNeighbors_Continue[OF vis] obtain new where
    new: "q' = q @ map (\<lambda>n. (n, k + 1)) new" "seen' = seen \<union> set new"
    "set new = set (ownNeighbors adj cur) - seen"
    by blast
  from inv have cur: "isDist adj src cur k" "cur \<in> seen" by (simp_all add: bfsInv_def)
  from inv have old: "\<forall>p\<in>set q. fst p \<in> seen \<and> isDist adj src (fst p) (snd p) \<and> snd p \<le> limit"
    by (simp add: bfsInv_def)
  from inv have srt: "sorted (map snd q)" and lo: "\<forall>d\<in>snd ` set q. k \<le> d"
    by (auto simp: bfsInv_def)
  from inv have hi: "\<forall>d\<in>snd ` set q. d \<le> Suc k"
    unfolding bfsInv_def by (simp add: image_iff)
  from inv have dst: "dst \<notin> seen" and src: "src \<in> seen" by (simp_all add: bfsInv_def)
  have disc: "isDist adj src n (Suc k)" if "n \<in> set new" for n
    using bfsInv_discover[OF inv lt, of n] that new(3) by simp
  have i1: "\<forall>p\<in>set q'. fst p \<in> seen' \<and> isDist adj src (fst p) (snd p) \<and> snd p \<le> limit"
    using old disc lt unfolding new(1,2) by auto
  have const: "sorted (map (\<lambda>x. Suc k) new)"
    by (induction new) auto
  have i2: "sorted (map snd q')"
    using srt hi const unfolding new(1,2) by (auto simp: sorted_append comp_def)
  have rng: "\<forall>d\<in>snd ` set q'. k \<le> d \<and> d \<le> Suc k"
    using lo hi unfolding new(1,2) by auto
  have i3: "\<forall>d\<in>snd ` set q'. \<forall>d'\<in>snd ` set q'. d' \<le> Suc d"
  proof (intro ballI)
    fix d d' assume "d \<in> snd ` set q'" "d' \<in> snd ` set q'"
    with rng have "k \<le> d" "d' \<le> Suc k" by blast+
    then show "d' \<le> Suc d" by linarith
  qed
  have i4: "set (ownNeighbors adj u) \<subseteq> seen'"
    if u: "u \<in> seen'" "u \<notin> fst ` set q'" "isDist adj src u m" "m < limit" for u m
  proof (cases "u = cur")
    case True
    then show ?thesis using new(2,3) by auto
  next
    case False
    have "u \<notin> set new" using u(2) unfolding new(1,2) by force
    with u(1) have us: "u \<in> seen" unfolding new(1,2) by simp
    have "u \<notin> fst ` set ((cur, k) # q)" using False u(2) unfolding new(1,2) by auto
    with inv us u(3,4) have "set (ownNeighbors adj u) \<subseteq> seen" unfolding bfsInv_def by blast
    then show ?thesis unfolding new(1,2) by auto
  qed
  have i5: "dst \<notin> seen'"
    using visitNeighbors_Continue_dst[OF vis] dst new(2,3) by auto
  have i6: "src \<in> seen'" using src new(2) by simp
  have i4': "\<forall>u\<in>seen'. u \<notin> fst ` set q' \<longrightarrow>
            (\<forall>m. isDist adj src u m \<longrightarrow> m < limit \<longrightarrow> set (ownNeighbors adj u) \<subseteq> seen')"
    using i4 by (intro ballI impI allI)
  show ?thesis
    unfolding bfsInv_def by (intro conjI i1 i2 i3 i4' i5 i6)
qed


lemma neighbors_plain:
  "getProperty adj v \<noteq> Inherited \<Longrightarrow> neighbors adj v = Inr (ownNeighbors adj v)"
  by (cases "map_of adj v") (auto simp: neighbors_def getProperty_def ownNeighbors_def split: if_splits)

lemma ownNeighbors_nodes: "set (ownNeighbors adj v) \<subseteq> set (concat (map snd adj))"
  using neighbors_nodes[of adj v "ownNeighbors adj v"]
  by (cases "map_of adj v") (auto simp: neighbors_def getProperty_def ownNeighbors_def)

lemma bfsLoop_correct:
  assumes "bfsInv adj src dst limit q seen"
    and "\<forall>v\<in>fst ` set q \<union> set (concat (map snd adj)). getProperty adj v \<noteq> Inherited"
  shows "bfsLoop adj dst limit q seen =
           Inr (if pathLen adj src dst \<le> enat limit then pathLen adj src dst else \<infinity>)"
  using assms
proof (induction adj dst limit q seen rule: bfsLoop.induct)
  case (1 adj dst limit seen)
  have "\<not> (\<exists>d\<le>limit. isDist adj src dst d)"
  proof
    assume "\<exists>d\<le>limit. isDist adj src dst d"
    then obtain d where "d \<le> limit" "isDist adj src dst d" by blast
    then have "dst \<in> seen" using bfsInv_levels[OF 1(1)] by simp
    with 1(1) show False by (simp add: bfsInv_def)
  qed
  then show ?case by (auto simp: pathLen_le_iff)
next
  case (2 adj dst limit current distance queue seen)
  note inv = "2.prems"(1)
  note plain = "2.prems"(2)
  have plainq: "\<forall>v\<in>fst ` set queue \<union> set (concat (map snd adj)). getProperty adj v \<noteq> Inherited"
    using plain by auto
  show ?case
  proof (cases "limit \<le> distance")
    case True
    with "2.IH"(1)[OF True bfsInv_skip[OF inv True] plainq] show ?thesis by simp
  next
    case False
    then have lt: "distance < limit" by simp
    have nb: "neighbors adj current = Inr (ownNeighbors adj current)"
      by (rule neighbors_plain) (use plain in simp)
    show ?thesis
    proof (cases "visitNeighbors dst distance (ownNeighbors adj current) queue seen")
      case (Found r)
      from visitNeighbors_Found[OF Found] have r: "r = Suc distance"
        "dst \<in> set (ownNeighbors adj current)" "dst \<notin> seen" by simp_all
      have "isDist adj src dst (Suc distance)"
        by (rule bfsInv_discover[OF inv lt r(2,3)])
      then have "pathLen adj src dst = enat (Suc distance)" by (rule pathLen_isDist)
      with Found r(1) False lt nb show ?thesis by (simp add: Suc_le_eq)
    next
      case (Continue queue' seen')
      have inv': "bfsInv adj src dst limit queue' seen'"
        by (rule bfsInv_step[OF inv lt Continue])
      from visitNeighbors_Continue[OF Continue] obtain new where
        new: "queue' = queue @ map (\<lambda>n. (n, distance + 1)) new"
        "set new = set (ownNeighbors adj current) - seen"
        by blast
      have "set new \<subseteq> set (concat (map snd adj))"
        using new(2) ownNeighbors_nodes[of adj current] by blast
      moreover have "fst ` set queue' = fst ` set queue \<union> set new"
        unfolding new(1) by (simp add: image_Un image_image)
      ultimately have "fst ` set queue' \<subseteq> fst ` set queue \<union> set (concat (map snd adj))"
        by blast
      with plainq have plain': "\<forall>v\<in>fst ` set queue' \<union> set (concat (map snd adj)).
          getProperty adj v \<noteq> Inherited"
        by blast
      from "2.IH"(2)[OF False nb Continue inv' plain'] Continue False nb show ?thesis by simp
    qed
  qed
qed

lemma getProperty_Undefined:
  "getProperty adj v \<noteq> Inherited \<Longrightarrow> getProperty adj v = Undefined \<longleftrightarrow> map_of adj v = None"
  by (cases "map_of adj v") (auto simp: getProperty_def split: if_splits)

lemma shortestPathLen_directed:
  assumes "plainNames adj [src, dst]"
  shows "shortestPathLen adj src dst limit = Inr (boundedDist adj src dst limit)"
proof -
  from assms have s: "getProperty adj src \<noteq> Inherited" and d: "getProperty adj dst \<noteq> Inherited"
    and all: "\<forall>v\<in>fst ` set [(src, 0::nat)] \<union> set (concat (map snd adj)). getProperty adj v \<noteq> Inherited"
    by (simp_all add: plainNames_def)
  show ?thesis
  proof (cases "src = dst")
    case True
    then show ?thesis by (simp add: shortestPathLen_def boundedDist_def)
  next
    case False
    show ?thesis
      using False bfsLoop_correct[OF bfsInv_init[OF False] all, of limit]
      by (simp add: shortestPathLen_def boundedDist_def getProperty_Undefined[OF s]
            getProperty_Undefined[OF d] del: bfsLoop.simps)
  qed
qed

lemma bestPathLoop_Min:
  assumes "\<forall>e\<in>set others. shortestPathLen adj (ep_entity_key cause) (ep_entity_key e) 4 = Inr (f e)"
  shows "bestPathLoop adj cause init others = Inr (Min (insert init (f ` set others)))"
  using assms
proof (induction others arbitrary: init)
  case Nil
  then show ?case by simp
next
  case (Cons x xs)
  have "(if f x < init then f x else init) = min (f x) init" by (auto simp: min_def)
  moreover have "Min (insert (min (f x) init) (f ` set xs)) = Min (insert init (insert (f x) (f ` set xs)))"
    by (cases "f ` set xs = {}") (simp_all add: min.commute min.left_commute min.assoc)
  ultimately show ?case using Cons by simp
qed

lemma plainNames_pair:
  "plainNames adj (k # ks) \<Longrightarrow> k' \<in> set ks \<Longrightarrow> plainNames adj [k, k']"
  by (auto simp: plainNames_def)

lemma bestPathOf_Min:
  assumes "plainNames adj (ep_entity_key cause # map ep_entity_key others)"
  shows "bestPathOf adj cause others =
     Inr (Min (insert \<infinity> ((\<lambda>e. boundedDist adj (ep_entity_key cause) (ep_entity_key e) 4) ` set others)))"
  unfolding bestPathOf_def
proof (rule bestPathLoop_Min, rule ballI)
  fix e assume "e \<in> set others"
  then have "plainNames adj [ep_entity_key cause, ep_entity_key e]"
    using plainNames_pair[OF assms, of "ep_entity_key e"] by simp
  then show "shortestPathLen adj (ep_entity_key cause) (ep_entity_key e) 4 =
      Inr (boundedDist adj (ep_entity_key cause) (ep_entity_key e) 4)"
    by (rule shortestPathLen_directed)
qed

lemma epOn_sel [simp]: "ep_entity_key (epOn e t) = e"
  by (simp add: epOn_def)



text \<open>
  Claim C3, as amended. For each effect the scorer takes the length of a shortest
  directed path (following each entity's own array of neighbours) from the cause's entity
  to the effect's entity, found by breadth-first search bounded at depth 4; equal entities
  are at distance 0 and an endpoint that is not an own key of the adjacency object makes
  the effect unreachable. This holds when none of the entities involved, the endpoints
  and the members of the arrays, reads as a member inherited from \<open>Object.prototype\<close>
  without being an own key. The best path is the minimum over the effects and the path
  score is \<open>1 / (1 + d)\<close> for a finite minimum \<open>d\<close> and 0 otherwise. With
  \<open>adj = {a: [b], b: [c], c: []}\<close> and episodes on \<open>a\<close> and \<open>c\<close> the best path is 2 and the
  path score \<open>1/3\<close>; with \<open>adj = {a: [b], b: [c]}\<close> the endpoint \<open>c\<close> is not a key and the
  best path is \<open>\<infinity>\<close>. On an inherited name the lookup is truthy: the search throws a
  \<open>TypeError\<close> when it expands \<open>valueOf\<close>, and it finds the endpoint \<open>constructor\<close> although
  it is not a key.
\<close>

theorem graph_proximity_directed:
  "(src = dst \<longrightarrow> shortestPathLen adj src dst limit = Inr 0)
   \<and> (plainNames adj [src, dst] \<longrightarrow>
        shortestPathLen adj src dst limit = Inr (boundedDist adj src dst limit))
   \<and> (plainNames adj (ep_entity_key cause # map ep_entity_key others) \<longrightarrow>
        bestPathOf adj cause others =
          Inr (Min (insert \<infinity> ((\<lambda>e. boundedDist adj (ep_entity_key cause) (ep_entity_key e) 4)
                                ` set others))))
   \<and> pathScoreOf \<infinity> = 0
   \<and> pathScoreOf (enat d) = 1 / (1 + real d)
   \<and> bestPathOf [(''a'', [''b'']), (''b'', [''c'']), (''c'', [])]
         (epOn ''a'' 1700000000000) [epOn ''c'' 1700000030000] = Inr 2
   \<and> pathScoreOf 2 = 1 / 3
   \<and> bestPathOf [(''a'', [''b'']), (''b'', [''c''])]
         (epOn ''a'' 1700000000000) [epOn ''c'' 1700000030000] = Inr \<infinity>
   \<and> shortestPathLen [(''a'', [''valueOf'']), (''c'', [])] ''a'' ''c'' 4 = Inl TypeError
   \<and> shortestPathLen [(''a'', [''constructor''])] ''a'' ''constructor'' 4 = Inr 1"
proof -
  have a: "src = dst \<longrightarrow> shortestPathLen adj src dst limit = Inr 0"
    by (simp add: shortestPathLen_def)
  have b: "plainNames adj [src, dst] \<longrightarrow>
        shortestPathLen adj src dst limit = Inr (boundedDist adj src dst limit)"
    using shortestPathLen_directed by blast
  have c: "plainNames adj (ep_entity_key cause # map ep_entity_key others) \<longrightarrow>
        bestPathOf adj cause others =
          Inr (Min (insert \<infinity> ((\<lambda>e. boundedDist adj (ep_entity_key cause) (ep_entity_key e) 4)
                                ` set others)))"
    using bestPathOf_Min by blast
  have two: "(2::enat) = enat 2" by (simp add: numeral_eq_enat)
  have d: "shortestPathLen [(''a'', [''b'']), (''b'', [''c'']), (''c'', [])] ''a'' ''c'' 4 = Inr 2"
    by (simp add: shortestPathLen_def neighbors_def getProperty_def two)
  have e: "shortestPathLen [(''a'', [''b'']), (''b'', [''c''])] ''a'' ''c'' 4 = Inr \<infinity>"
    by (simp add: shortestPathLen_def getProperty_def objectPrototypeKeys_def)
  have f: "shortestPathLen [(''a'', [''valueOf'']), (''c'', [])] ''a'' ''c'' 4 = Inl TypeError"
    by (simp add: shortestPathLen_def neighbors_def getProperty_def objectPrototypeKeys_def)
  have g: "shortestPathLen [(''a'', [''constructor''])] ''a'' ''constructor'' 4 = Inr 1"
    by (simp add: shortestPathLen_def neighbors_def getProperty_def objectPrototypeKeys_def one_enat_def)
  have h: "pathScoreOf \<infinity> = 0" "pathScoreOf (enat d) = 1 / (1 + real d)" "pathScoreOf 2 = 1 / 3"
    by (simp_all add: pathScoreOf_def two)
  have i: "bestPathOf [(''a'', [''b'']), (''b'', [''c'']), (''c'', [])]
         (epOn ''a'' 1700000000000) [epOn ''c'' 1700000030000] = Inr 2"
    by (simp add: bestPathOf_def d)
  have j: "bestPathOf [(''a'', [''b'']), (''b'', [''c''])]
         (epOn ''a'' 1700000000000) [epOn ''c'' 1700000030000] = Inr \<infinity>"
    by (simp add: bestPathOf_def e)
  show ?thesis
    by (intro conjI a b c h i j f g)
qed

text \<open>
  The graph \<open>{a: [b], b: [c], c: []}\<close> has plain names; from \<open>a\<close> to \<open>c\<close> the search and the
  bounded distance are both 2.
\<close>

theorem graph_proximity_directed_witness:
  "plainNames [(''a'', [''b'']), (''b'', [''c'']), (''c'', [])] [''a'', ''c'']
   \<and> plainNames [(''a'', [''b'']), (''b'', [''c'']), (''c'', [])]
        (ep_entity_key (epOn ''a'' 1700000000000) # map ep_entity_key [epOn ''c'' 1700000030000])
   \<and> shortestPathLen [(''a'', [''b'']), (''b'', [''c'']), (''c'', [])] ''a'' ''c'' 4 = Inr 2
   \<and> boundedDist [(''a'', [''b'']), (''b'', [''c'']), (''c'', [])] ''a'' ''c'' 4 = 2
   \<and> shortestPathLen [(''a'', [''b'']), (''b'', [''c'']), (''c'', [])] ''a'' ''a'' 4 = Inr 0
   \<and> bestPathOf [(''a'', [''b'']), (''b'', [''c'']), (''c'', [])]
         (epOn ''a'' 1700000000000) [epOn ''c'' 1700000030000] =
       Inr (Min {\<infinity>, boundedDist [(''a'', [''b'']), (''b'', [''c'']), (''c'', [])] ''a'' ''c'' 4})"
proof -
  let ?adj = "[(''a'', [''b'']), (''b'', [''c'']), (''c'', [])]"
  have p: "plainNames ?adj [''a'', ''c'']"
    by (simp add: plainNames_def getProperty_def objectPrototypeKeys_def)
  have q: "plainNames ?adj
      (ep_entity_key (epOn ''a'' 1700000000000) # map ep_entity_key [epOn ''c'' 1700000030000])"
    using p by simp
  have two: "(2::enat) = enat 2" by (simp add: numeral_eq_enat)
  have d: "shortestPathLen ?adj ''a'' ''c'' 4 = Inr 2"
    by (simp add: shortestPathLen_def neighbors_def getProperty_def two)
  note T = graph_proximity_directed[of "''a''" "''c''" ?adj 4 "epOn ''a'' 1700000000000"
      "[epOn ''c'' 1700000030000]" 0]
  note T0 = graph_proximity_directed[of "''a''" "''a''" ?adj 4 "epOn ''a'' 1700000000000"
      "[epOn ''c'' 1700000030000]" 0]
  from T p have b: "shortestPathLen ?adj ''a'' ''c'' 4 = Inr (boundedDist ?adj ''a'' ''c'' 4)"
    by blast
  from T q have m: "bestPathOf ?adj (epOn ''a'' 1700000000000) [epOn ''c'' 1700000030000] =
      Inr (Min (insert \<infinity> ((\<lambda>e. boundedDist ?adj (ep_entity_key (epOn ''a'' 1700000000000))
          (ep_entity_key e) 4) ` set [epOn ''c'' 1700000030000])))"
    by blast
  from T0 have z: "shortestPathLen ?adj ''a'' ''a'' 4 = Inr 0" by blast
  from b d have bd: "boundedDist ?adj ''a'' ''c'' 4 = 2" by simp
  show ?thesis
    using p q d bd z m by (simp add: insert_commute)
qed

text \<open>
  Claim C3 as stated fails on its own example, where \<open>c\<close> is not a key of the adjacency
  object, and on an edge that only leads from the effect to the cause.
\<close>

theorem graph_proximity_counterexample:
  "\<not> (\<exists>d. bestPathOf [(''a'', [''b'']), (''b'', [''c''])]
             (epOn ''a'' 1700000000000) [epOn ''c'' 1700000030000] = Inr d
           \<and> pathScoreOf d = 1 / (1 + 2))
   \<and> shortestPathLen [(''a'', []), (''c'', [''a''])] ''a'' ''c'' 4 = Inr \<infinity>"
proof -
  have d: "shortestPathLen [(''a'', [''b'']), (''b'', [''c''])] ''a'' ''c'' 4 = Inr \<infinity>"
    by (simp add: shortestPathLen_def getProperty_def objectPrototypeKeys_def)
  have e: "shortestPathLen [(''a'', []), (''c'', [''a''])] ''a'' ''c'' 4 = Inr \<infinity>"
    by (simp add: shortestPathLen_def neighbors_def getProperty_def)
  show ?thesis
    by (simp add: pathScoreOf_def bestPathOf_def d e)
qed

section \<open>Lead-lag correlation\<close>

lemma binsInc_keys: "map fst (binsInc m b) = pushNew (map fst m) b"
  by (induction m b rule: binsInc.induct) (auto simp: pushNew_def)

lemma binsInc_count:
  "binCount (binsInc m b) b' = binCount m b' + (if b' = b then 1 else 0)"
  by (induction m b rule: binsInc.induct) (auto simp: binCount_def)

lemma foldl_binsInc_keys: "map fst (foldl binsInc m bs) = foldl pushNew (map fst m) bs"
  by (induction bs arbitrary: m) (simp_all add: binsInc_keys)

lemma foldl_binsInc_count:
  "binCount (foldl binsInc m bs) b' = binCount m b' + length (filter (\<lambda>b. b = b') bs)"
  by (induction bs arbitrary: m) (auto simp: binsInc_count)

lemma toBins_keys: "map fst (toBins tss) = firstKeys (map (\<lambda>t. t div 1000) tss)"
  by (simp add: toBins_def foldl_binsInc_keys firstKeys_def)

lemma toBins_count: "binCount (toBins tss) b = hist tss b"
proof -
  have "binCount [] b = 0" by (simp add: binCount_def)
  moreover have "filter (\<lambda>x. x = b) (map (\<lambda>t. t div 1000) tss) =
                 map (\<lambda>t. t div 1000) (filter (\<lambda>t. t div 1000 = b) tss)"
    by (simp add: filter_map comp_def)
  ultimately show ?thesis
    unfolding toBins_def foldl_binsInc_count hist_def by simp
qed

lemma toBins_distinct: "distinct (map fst (toBins tss))"
  by (simp add: toBins_keys)

lemma toBins_set: "set (map fst (toBins tss)) = binsOf tss"
  by (simp add: toBins_keys binsOf_def)

lemma toBins_entry: "(b, c) \<in> set (toBins tss) \<Longrightarrow> c = hist tss b"
proof -
  assume "(b, c) \<in> set (toBins tss)"
  then have "map_of (toBins tss) b = Some c"
    using toBins_distinct by (intro map_of_is_SomeI) simp_all
  then have "binCount (toBins tss) b = c" by (simp add: binCount_def)
  then show ?thesis by (simp add: toBins_count)
qed

lemma lagSums_sum_list:
  "lagSums A B lag =
     (sum_list (map (\<lambda>p. snd p * binCount B (fst p + lag)) A),
      sum_list (map (\<lambda>p. snd p * snd p) A),
      sum_list (map (\<lambda>p. binCount B (fst p + lag) * binCount B (fst p + lag)) A))"
  by (induction A) (auto simp: Let_def split: prod.splits)

lemma sum_list_toBins:
  "sum_list (map (\<lambda>p. g (fst p) (snd p)) (toBins tss)) = (\<Sum>i\<in>binsOf tss. g i (hist tss i))"
proof -
  have "map (\<lambda>p. g (fst p) (snd p)) (toBins tss) =
        map (\<lambda>i. g i (hist tss i)) (map fst (toBins tss))"
    by (auto dest: toBins_entry)
  then have "sum_list (map (\<lambda>p. g (fst p) (snd p)) (toBins tss)) =
             sum_list (map (\<lambda>i. g i (hist tss i)) (map fst (toBins tss)))"
    by (rule arg_cong)
  also have "\<dots> = (\<Sum>i\<in>set (map fst (toBins tss)). g i (hist tss i))"
    using toBins_distinct by (rule sum_list_distinct_conv_sum_set)
  finally show ?thesis by (simp only: toBins_set)
qed

lemma lagSums_toBins:
  "lagSums (toBins aTs) (toBins bTs) lag =
     (\<Sum>i\<in>binsOf aTs. hist aTs i * hist bTs (i + lag),
      \<Sum>i\<in>binsOf aTs. hist aTs i * hist aTs i,
      \<Sum>i\<in>binsOf aTs. hist bTs (i + lag) * hist bTs (i + lag))"
  unfolding lagSums_sum_list toBins_count
  using sum_list_toBins[of "\<lambda>i a. a * hist bTs (i + lag)" aTs]
    sum_list_toBins[of "\<lambda>i a. a * a" aTs]
    sum_list_toBins[of "\<lambda>i a. hist bTs (i + lag) * hist bTs (i + lag)" aTs]
  by simp

lemma overlapSim_nonneg: "0 \<le> overlapSim aTs bTs lag"
  unfolding overlapSim_def
  by (intro divide_nonneg_nonneg real_sqrt_ge_zero of_nat_0_le_iff)

lemma lagStep_overlapSim:
  assumes "0 \<le> snd best"
  shows "lagStep (toBins aTs) (toBins bTs) best lag =
     (if overlapSim aTs bTs lag > snd best then (lag * 1000, overlapSim aTs bTs lag) else best)"
proof -
  let ?n = "\<Sum>i\<in>binsOf aTs. hist aTs i * hist bTs (i + lag)"
  let ?a = "\<Sum>i\<in>binsOf aTs. hist aTs i * hist aTs i"
  let ?b = "\<Sum>i\<in>binsOf aTs. hist bTs (i + lag) * hist bTs (i + lag)"
  have sim: "overlapSim aTs bTs lag = real ?n / sqrt (real (?a * ?b))"
    by (simp add: overlapSim_def)
  show ?thesis
  proof (cases "?a > 0 \<and> ?b > 0")
    case True
    then show ?thesis
      unfolding lagStep_def lagSums_toBins sim by (simp add: Let_def)
  next
    case False
    then have z: "?a * ?b = 0" by auto
    have "overlapSim aTs bTs lag = 0"
      unfolding sim by (simp only: z of_nat_0 real_sqrt_zero div_by_0)
    with False assms show ?thesis
      unfolding lagStep_def lagSums_toBins by auto
  qed
qed


text \<open>A fold that keeps the first strictly greatest score, with the key it came with.\<close>

lemma foldl_best:
  fixes g :: "'a \<Rightarrow> real" and k :: "'a \<Rightarrow> 'k"
  shows "snd init \<le> snd (foldl (\<lambda>best x. if g x > snd best then (k x, g x) else best) init xs)
    \<and> (\<forall>x\<in>set xs. g x \<le> snd (foldl (\<lambda>best x. if g x > snd best then (k x, g x) else best) init xs))
    \<and> (foldl (\<lambda>best x. if g x > snd best then (k x, g x) else best) init xs = init
        \<or> (\<exists>x\<in>set xs. foldl (\<lambda>best x. if g x > snd best then (k x, g x) else best) init xs = (k x, g x)))"
proof (induction xs arbitrary: init)
  case Nil
  then show ?case by simp
next
  case (Cons x xs)
  let ?step = "\<lambda>best x. if g x > snd best then (k x, g x) else best"
  let ?i = "?step init x"
  note ih = Cons.IH[of ?i]
  have le: "snd init \<le> snd ?i" "g x \<le> snd ?i" by auto
  have i: "?i = init \<or> ?i = (k x, g x)" by auto
  have "snd init \<le> snd (foldl ?step ?i xs)" using ih le by linarith
  moreover have "g x \<le> snd (foldl ?step ?i xs)" using ih le by linarith
  moreover have "\<forall>y\<in>set xs. g y \<le> snd (foldl ?step ?i xs)" using ih by blast
  moreover have "foldl ?step ?i xs = init \<or> (\<exists>y\<in>set (x # xs). foldl ?step ?i xs = (k y, g y))"
  proof -
    from ih have "foldl ?step ?i xs = ?i \<or> (\<exists>y\<in>set xs. foldl ?step ?i xs = (k y, g y))"
      by blast
    then show ?thesis
    proof
      assume a: "foldl ?step ?i xs = ?i"
      from i show ?thesis
      proof
        assume "?i = init"
        with a show ?thesis by simp
      next
        assume "?i = (k x, g x)"
        with a have "foldl ?step ?i xs = (k x, g x)" by simp
        then show ?thesis by (intro disjI2 bexI[of _ x]) simp_all
      qed
    next
      assume "\<exists>y\<in>set xs. foldl ?step ?i xs = (k y, g y)"
      then obtain y where "y \<in> set xs" "foldl ?step ?i xs = (k y, g y)" by blast
      then show ?thesis by (intro disjI2 bexI[of _ y]) simp_all
    qed
  qed
  ultimately show ?case by simp
qed

lemma foldl_lagStep:
  assumes "0 \<le> snd init"
  shows "foldl (lagStep (toBins aTs) (toBins bTs)) init lags =
         foldl (\<lambda>best lag. if overlapSim aTs bTs lag > snd best
                            then (lag * 1000, overlapSim aTs bTs lag) else best) init lags"
  using assms
proof (induction lags arbitrary: init)
  case Nil
  then show ?case by simp
next
  case (Cons lag lags)
  let ?i = "if overlapSim aTs bTs lag > snd init then (lag * 1000, overlapSim aTs bTs lag) else init"
  have "0 \<le> snd ?i" using Cons.prems overlapSim_nonneg[of aTs bTs lag] by simp
  from Cons.IH[OF this] show ?case
    by (simp add: lagStep_overlapSim[OF Cons.prems])
qed

lemma overlapSim_empty: "aTs = [] \<or> bTs = [] \<Longrightarrow> overlapSim aTs bTs lag = 0"
  by (auto simp: overlapSim_def binsOf_def hist_def)

lemma corrLeadLag_fold:
  "corrLeadLag aTs bTs maxLeadMs =
     (if aTs = [] \<or> bTs = [] then (0, 0)
      else foldl (\<lambda>best lag. if overlapSim aTs bTs lag > snd best
                              then (lag * 1000, overlapSim aTs bTs lag) else best)
             (0, 0) [0..maxLeadMs div 1000])"
  by (simp add: corrLeadLag_def foldl_lagStep)

lemma corrLeadLag_max:
  "(\<forall>lag\<in>{0..maxLeadMs div 1000}. overlapSim aTs bTs lag \<le> snd (corrLeadLag aTs bTs maxLeadMs))
   \<and> 0 \<le> snd (corrLeadLag aTs bTs maxLeadMs)
   \<and> (corrLeadLag aTs bTs maxLeadMs = (0, 0)
      \<or> (\<exists>lag\<in>{0..maxLeadMs div 1000}.
            corrLeadLag aTs bTs maxLeadMs = (lag * 1000, overlapSim aTs bTs lag)))"
proof (cases "aTs = [] \<or> bTs = []")
  case True
  then show ?thesis by (simp add: corrLeadLag_fold overlapSim_empty)
next
  case False
  with foldl_best[where init = "(0, 0)" and g = "\<lambda>lag. overlapSim aTs bTs lag"
      and xs = "[0..maxLeadMs div 1000]" and k = "\<lambda>lag. lag * 1000"]
  show ?thesis by (simp add: corrLeadLag_fold)
qed

lemma bestLagOf_fold:
  "bestLagOf cause others maxLeadMs =
     foldl (\<lambda>best e. if snd (corrLeadLag (map ts (ep_alerts cause)) (map ts (ep_alerts e)) maxLeadMs) > snd best
                      then (fst (corrLeadLag (map ts (ep_alerts cause)) (map ts (ep_alerts e)) maxLeadMs),
                            snd (corrLeadLag (map ts (ep_alerts cause)) (map ts (ep_alerts e)) maxLeadMs))
                      else best) (0, 0) others"
  unfolding bestLagOf_def Let_def by (simp cong: if_cong)






section \<open>Score bounds: the echo penalty\<close>

lemma bestLagOf_attained:
  "bestLagOf cause others maxLeadMs = (0, 0)
   \<or> (\<exists>e\<in>set others. \<exists>lag.
         bestLagOf cause others maxLeadMs =
           (lag * 1000, overlapSim (map ts (ep_alerts cause)) (map ts (ep_alerts e)) lag))"
proof -
  let ?c = "\<lambda>e. corrLeadLag (map ts (ep_alerts cause)) (map ts (ep_alerts e)) maxLeadMs"
  note fb = foldl_best[where init = "(0::int, 0::real)" and g = "\<lambda>e. snd (?c e)"
      and xs = others and k = "\<lambda>e. fst (?c e)", folded bestLagOf_fold]
  from fb have "bestLagOf cause others maxLeadMs = (0, 0)
      \<or> (\<exists>e\<in>set others. bestLagOf cause others maxLeadMs = ?c e)"
    by simp
  then show ?thesis
  proof
    assume "bestLagOf cause others maxLeadMs = (0, 0)"
    then show ?thesis by simp
  next
    assume "\<exists>e\<in>set others. bestLagOf cause others maxLeadMs = ?c e"
    then obtain e where e: "e \<in> set others" "bestLagOf cause others maxLeadMs = ?c e" by blast
    from corrLeadLag_max[of maxLeadMs "map ts (ep_alerts cause)" "map ts (ep_alerts e)"]
    have "?c e = (0, 0) \<or> (\<exists>lag.
            ?c e = (lag * 1000, overlapSim (map ts (ep_alerts cause)) (map ts (ep_alerts e)) lag))"
      by blast
    with e show ?thesis by (metis (no_types, lifting))
  qed
qed

lemma ratio_le_1: "real (x * y) / sqrt (real ((x * x) * (y * y))) \<le> 1"
proof -
  have "real ((x * x) * (y * y)) = real (x * y) * real (x * y)" by simp
  then have "sqrt (real ((x * x) * (y * y))) = real (x * y)" by (simp only: real_sqrt_mult_self) simp
  then show ?thesis by simp
qed

lemma overlapSim_single:
  assumes "binsOf aTs = {b}"
  shows "overlapSim aTs bTs lag \<le> 1"
  unfolding overlapSim_def assms using ratio_le_1[of "hist aTs b" "hist bTs (b + lag)"] by simp

lemma sorted_map_const: "(\<forall>x\<in>set xs. f x = c) \<Longrightarrow> sorted (map f xs)"
  by (induction xs) auto

lemma fold_max_const: "(\<forall>x\<in>set ws. x = (w::real)) \<Longrightarrow> fold max ws w = w"
  by (induction ws) auto

lemma foldl_mix_const:
  "(\<forall>e\<in>set es. length (vendorMix e) = m) \<Longrightarrow>
     foldl (\<lambda>acc ep. acc + length (vendorMix ep)) a es = a + m * length es"
  by (induction es arbitrary: a) auto


lemma composite_echo_bound:
  assumes eps: "sit_episodes sit = e0 # es" and ne: "es \<noteq> []"
    and same: "\<forall>e\<in>set (e0 # es). ep_entity_key e = k \<and> ep_start e = t
                 \<and> length (vendorMix e) = 4 \<and> ep_severity e = ''low''
                 \<and> binsOf (map ts (ep_alerts e)) = {b}"
    and nodeploy: "\<forall>a\<in>set (related_alerts sit). deploy_key a = None"
    and ent: "blast_entities sit = 1"
  shows "sort_key (ep_start \<circ> snd) (zip [0..<length (sit_episodes sit)] (sit_episodes sit)) =
           (0, e0) # zip [1..<Suc (length es)] es
       \<and> bestPathOf adj e0 es = Inr 0
       \<and> compositeOf sit (bestLagOf e0 es maxLeadMs) 0 \<le> 0.6575 - 0.0075 * real (length (e0 # es))"
proof -
  let ?n = "length es"
  let ?zs = "zip [0..<length (sit_episodes sit)] (sit_episodes sit)"
  have up: "[0..<Suc ?n] = 0 # [1..<Suc ?n]"
    using upt_conv_Cons[of 0 "Suc ?n"] by (simp del: upt_Suc)
  have zs: "?zs = (0, e0) # zip [1..<Suc ?n] es"
    unfolding eps by (simp add: up del: upt_Suc)
  have "\<forall>z\<in>set ?zs. (ep_start \<circ> snd) z = t"
  proof
    fix z assume "z \<in> set ?zs"
    then have "(fst z, snd z) \<in> set ?zs" by simp
    then have "snd z \<in> set (sit_episodes sit)" by (rule set_zip_rightD)
    with same show "(ep_start \<circ> snd) z = t" unfolding eps by auto
  qed
  then have "sorted (map (ep_start \<circ> snd) ?zs)" by (rule sorted_map_const)
  then have srt: "sort_key (ep_start \<circ> snd) ?zs = (0, e0) # zip [1..<Suc ?n] es"
    using zs by (simp only: sort_key_id_if_sorted)
  have others: "map snd (zip [1..<Suc ?n] es) = es"
    by (rule map_snd_zip) (simp del: upt_Suc)
  have lag: "snd (bestLagOf e0 es maxLeadMs) \<le> 1"
  proof -
    have b0: "binsOf (map ts (ep_alerts e0)) = {b}" using same by simp
    from bestLagOf_attained[of e0 es maxLeadMs] show ?thesis
    proof
      assume "bestLagOf e0 es maxLeadMs = (0, 0)"
      then show ?thesis by simp
    next
      assume "\<exists>e\<in>set es. \<exists>lag. bestLagOf e0 es maxLeadMs =
           (lag * 1000, overlapSim (map ts (ep_alerts e0)) (map ts (ep_alerts e)) lag)"
      then show ?thesis
      proof (elim bexE exE)
        fix e lag
        assume "bestLagOf e0 es maxLeadMs =
           (lag * 1000, overlapSim (map ts (ep_alerts e0)) (map ts (ep_alerts e)) lag)"
        then show ?thesis using overlapSim_single[OF b0] by simp
      qed
    qed
  qed
  have path0: "bestPathOf adj e0 es = Inr 0"
  proof -
    from ne obtain x where x: "x \<in> set es" by (cases es) auto
    have "\<forall>e\<in>set es. shortestPathLen adj (ep_entity_key e0) (ep_entity_key e) 4 = Inr ((\<lambda>e. 0) e)"
      using same by (simp add: shortestPathLen_def)
    then have "bestPathLoop adj e0 \<infinity> es = Inr (Min (insert \<infinity> ((\<lambda>e. 0) ` set es)))"
      by (rule bestPathLoop_Min)
    moreover from x have "(\<lambda>e. 0::enat) ` set es = {0}" by auto
    ultimately show ?thesis by (simp add: bestPathOf_def)
  qed
  have path: "pathScoreOf 0 = 1"
    by (simp add: pathScoreOf_def zero_enat_def)
  have sev: "(case map (severityWeight \<circ> ep_severity) (sit_episodes sit) of
                [] \<Rightarrow> 0 | w # ws \<Rightarrow> fold max ws w) = 0.25"
  proof -
    have "fold max (map (severityWeight \<circ> ep_severity) es) (0.25::real) = 0.25"
      by (rule fold_max_const) (use same in auto)
    then show ?thesis unfolding eps using same by simp
  qed
  have chg: "changeProxOf sit = 0.2"
    using nodeploy by (auto simp: changeProxOf_def list_ex_iff)
  have mix: "foldl (\<lambda>acc ep. acc + length (vendorMix ep)) 0 (sit_episodes sit) = 4 * Suc ?n"
    using foldl_mix_const[of "e0 # es" 4 0] same unfolding eps by simp
  have echo: "echoPenaltyOf sit = 0.15 * real (Suc ?n)"
    unfolding echoPenaltyOf_def mix by (simp add: eps)
  have card: "ln (1 + real (blast_entities sit)) < 1"
    using ln_2_less_1 by (simp add: ent)
  have comp: "compositeOf sit (bestLagOf e0 es maxLeadMs) 0 =
      0.35 * changeProxOf sit + 0.2 * snd (bestLagOf e0 es maxLeadMs)
      + 0.2 * pathScoreOf 0
      + 0.15 * ln (1 + real (blast_entities sit))
      + 0.15 * (case map (severityWeight \<circ> ep_severity) (sit_episodes sit) of
                  [] \<Rightarrow> 0 | w # ws \<Rightarrow> fold max ws w)
      - 0.1 * 0 - 0.05 * echoPenaltyOf sit"
    unfolding compositeOf_def by (simp add: Let_def)
  have "compositeOf sit (bestLagOf e0 es maxLeadMs) 0 \<le> 0.6575 - 0.0075 * real (length (e0 # es))"
    unfolding comp chg path sev echo using lag card by simp
  with srt path0 show ?thesis by simp
qed

lemma echoEpisode_sel:
  "ep_entity_key (echoEpisode i) = ''db''" "ep_start (echoEpisode i) = 1700000000000"
  "length (vendorMix (echoEpisode i)) = 4" "ep_severity (echoEpisode i) = ''low''"
  "binsOf (map ts (ep_alerts (echoEpisode i))) = {1700000000}"
  by (simp_all add: echoEpisode_def echoAlert_def binsOf_def)

text \<open>
  Claim C5 on the code. The composite subtracts an echo penalty that grows with the
  number of episodes, while \<open>confidence\<close> is only capped from above by
  \<open>Math.min(1, composite)\<close>. For the situation of one hundred episodes on one entity,
  each with the four vendors in its source mix, the score and the confidence of the
  primary cause are negative.
\<close>

theorem echo_situation_scores_below_zero:
  "\<exists>s. scoreSituation echoSituation [] 90000 = Inr s
       \<and> score s < 0
       \<and> (case primary_cause s of
            None \<Rightarrow> False
          | Some (entity, episodeIdx, confidence, lag_ms) \<Rightarrow> confidence < 0)"
proof -
  define es where "es = map echoEpisode [1..<100]"
  have eps: "sit_episodes echoSituation = echoEpisode 0 # es"
    by (simp add: echoSituation_def es_def)
  have ne: "es \<noteq> []" by (simp add: es_def)
  have same: "\<forall>e\<in>set (echoEpisode 0 # es). ep_entity_key e = ''db'' \<and> ep_start e = 1700000000000
                 \<and> length (vendorMix e) = 4 \<and> ep_severity e = ''low''
                 \<and> binsOf (map ts (ep_alerts e)) = {1700000000}"
    by (auto simp: echoEpisode_sel es_def)
  have nodeploy: "\<forall>a\<in>set (related_alerts echoSituation). deploy_key a = None"
    by (simp add: echoSituation_def echoAlert_def)
  have ent: "blast_entities echoSituation = 1" by (simp add: echoSituation_def)
  have len: "length es = 99" by (simp add: es_def)
  note b = composite_echo_bound[OF eps ne same nodeploy ent, of "[]" 90000]
  from b have c: "compositeOf echoSituation (bestLagOf (echoEpisode 0) es 90000) 0 < 0"
    by (simp add: len)
  from b have p: "bestPathOf [] (echoEpisode 0) es = Inr 0" by blast
  from b have srt: "sort_key (ep_start \<circ> snd)
      (zip [0..<length (sit_episodes echoSituation)] (sit_episodes echoSituation)) =
      (0, echoEpisode 0) # zip [1..<Suc (length es)] es" by blast
  have others: "map snd (zip [1..<Suc (length es)] es) = es"
    by (rule map_snd_zip) (simp del: upt_Suc)
  have run: "scoreSituation echoSituation [] 90000 =
      Inr (echoSituation\<lparr> primary_cause :=
             Some (ep_entity_key (echoEpisode 0), 0,
                   min 1 (compositeOf echoSituation (bestLagOf (echoEpisode 0) es 90000) 0),
                   fst (bestLagOf (echoEpisode 0) es 90000)),
           score := compositeOf echoSituation (bestLagOf (echoEpisode 0) es 90000) 0 \<rparr>)"
    unfolding scoreSituation_def srt list.case snd_conv fst_conv others Let_def p sum.case ..
  show ?thesis
    unfolding run using c by (simp add: min_def)
qed

section \<open>Threshold engine: emission rule and determinism\<close>


lemma isInCooldown_cong:
  "cooldowns s1 = cooldowns s2 \<Longrightarrow> isInCooldown s1 k now = isInCooldown s2 k now"
  by (simp add: isInCooldown_def)















end
